theory Spec2Isabelle
  imports Main
begin

text \<open>
  A model of the registrator of ingress53: the event handler, the update queue with its
  batching loop, the prune stage with the scope check, the live DNS resolution and the
  deduplication, and the selection of the target of an ingress. Every function of the
  source is a function here under its own name; a loop is a recursive function named after
  the function it belongs to; an error or a panic is a value. Logging is left out.
\<close>

section \<open>Strings\<close>

text \<open>
  Go strings are byte sequences; they are modelled as \<open>string\<close> (lists of 8-bit
  characters). The backslash is written \<open>CHR 0x5C\<close>.
\<close>

definition strings_Trim :: "string \<Rightarrow> string \<Rightarrow> string" where
  \<comment> \<open>\<open>strings.Trim(s, cutset)\<close>: all leading and all trailing characters of the cutset removed.\<close>
  "strings_Trim s cutset =
     rev (dropWhile (\<lambda>c. c \<in> set cutset) (rev (dropWhile (\<lambda>c. c \<in> set cutset) s)))"

fun strings_Replace :: "string \<Rightarrow> char \<Rightarrow> string \<Rightarrow> string" where
  \<comment> \<open>\<open>strings.Replace(s, old, new, -1)\<close> for a one-character \<open>old\<close>.\<close>
  "strings_Replace [] old new = []"
| "strings_Replace (c # cs) old new =
     (if c = old then new @ strings_Replace cs old new else c # strings_Replace cs old new)"

section \<open>The regular expressions used by the scope check\<close>

text \<open>
  \<open>regexp.MatchString\<close> belongs to the Go standard library. It is modelled exactly on the
  fragment that the scope check produces for ordinary zone names: a pattern \<open>^ ... $\<close> whose
  body is a sequence of literal ASCII characters, escaped dots \<open>\.\<close> and the class
  \<open>[^.]\<close>, each optionally followed by \<open>+\<close>. On every other pattern the library's answer
  is a parameter (\<open>regexp_ext\<close> below), so nothing is assumed about it.
\<close>

definition metaChars :: string where
  "metaChars = CHR 0x5C # ''.+*?()|[]{}^$''"

definition literalChar :: "char \<Rightarrow> bool" where
  "literalChar c = (c \<notin> set metaChars \<and> (of_char c :: nat) < 128)"

datatype atom = Lit char | NotChar char

datatype item = Once atom | OneOrMore atom

fun accepts :: "atom \<Rightarrow> char \<Rightarrow> bool" where
  "accepts (Lit c) d = (d = c)"
| "accepts (NotChar c) d = (d \<noteq> c)"

fun parseAtom :: "string \<Rightarrow> (atom \<times> string) option" where
  "parseAtom [] = None"
| "parseAtom (c # cs) =
     (if c = CHR 0x5C then
        (case cs of
           d # r \<Rightarrow> if d = CHR ''.'' then Some (Lit d, r) else None
         | [] \<Rightarrow> None)
      else if c = CHR ''['' then
        (case cs of
           a # d # e # r \<Rightarrow>
             if a = CHR ''^'' \<and> d = CHR ''.'' \<and> e = CHR '']'' then Some (NotChar d, r) else None
         | _ \<Rightarrow> None)
      else if literalChar c then Some (Lit c, cs)
      else None)"

function parseItems :: "string \<Rightarrow> item list option" where
  "parseItems s =
     (if s = [] then Some []
      else (case parseAtom s of
              None \<Rightarrow> None
            | Some (a, r) \<Rightarrow>
                (case r of
                   [] \<Rightarrow> Some [Once a]
                 | p # r' \<Rightarrow>
                     if p = CHR ''+'' then map_option ((#) (OneOrMore a)) (parseItems r')
                     else map_option ((#) (Once a)) (parseItems r))))"
  by pat_completeness auto
termination
  by (relation "measure length") (auto elim!: parseAtom.elims split: if_splits list.splits)

declare parseItems.simps [simp del]

fun matchItems :: "item list \<Rightarrow> string \<Rightarrow> bool" where
  "matchItems [] s = (s = [])"
| "matchItems (Once a # its) [] = False"
| "matchItems (Once a # its) (c # cs) = (accepts a c \<and> matchItems its cs)"
| "matchItems (OneOrMore a # its) [] = False"
| "matchItems (OneOrMore a # its) (c # cs) =
     (accepts a c \<and> (matchItems its cs \<or> matchItems (OneOrMore a # its) cs))"

definition regexp_MatchString ::
  "(string \<Rightarrow> string \<Rightarrow> string + bool) \<Rightarrow> string \<Rightarrow> string \<Rightarrow> string + bool" where
  \<comment> \<open>\<open>Inl\<close> is a compile error, \<open>Inr\<close> the match result.\<close>
  "regexp_MatchString ext pattern s =
     (case pattern of
        [] \<Rightarrow> ext pattern s
      | c # body \<Rightarrow>
          if c = CHR ''^'' \<and> body \<noteq> [] \<and> last body = CHR ''$'' then
            (case parseItems (butlast body) of
               Some its \<Rightarrow> Inr (matchItems its s)
             | None \<Rightarrow> ext pattern s)
          else ext pattern s)"

section \<open>Data model\<close>

record cnameRecord =
  Hostname :: string
  Target :: string

record cnameChange =
  Action :: string
  Record :: cnameRecord

definition ChangeActionDelete :: string where
  "ChangeActionDelete = ''DELETE''"

definition ChangeActionUpsert :: string where
  "ChangeActionUpsert = ''UPSERT''"

text \<open>
  Errors are values. \<open>errDNSEmptyAnswer\<close> is the package's sentinel; an error returned by
  the DNS client is a different object, so it never compares equal to the sentinel.
\<close>

datatype error = errDNSEmptyAnswer | exchangeError string

datatype panic = TypeAssertionPanic | IndexOutOfRangePanic | NilDereferencePanic

text \<open>A resource record of an answer section: a CNAME with its target, or any other type.\<close>

datatype rr = CNAME string | OtherRR

text \<open>
  An ingress as far as it is consumed: its name, its labels (a Go map: a missing key reads
  as the empty string) and the hosts of its rules, in order.
\<close>

record ingress =
  Name :: string
  Labels :: "string \<rightharpoonup> string"
  Hosts :: "string list"

definition labelValue :: "ingress \<Rightarrow> string \<Rightarrow> string" where
  \<comment> \<open>\<open>ingress.Labels[key]\<close>\<close>
  "labelValue ing key = (case Labels ing key of None \<Rightarrow> [] | Some v \<Rightarrow> v)"

datatype eventType = Added | Modified | Deleted | OtherEvent

text \<open>
  A parsed label selector is represented by its \<open>Matches\<close> function on label sets.
\<close>

record selectorAndTarget =
  Selector :: "(string \<rightharpoonup> string) \<Rightarrow> bool"
  satTarget :: string

record registratorOptions =
  AWSSessionOptions :: "string option"
  KubernetesConfig :: "string option"
  Targets :: "string list"
  TargetLabelName :: string
  Route53ZoneID :: string
  ResyncPeriod :: int

datatype configError = errRegistratorMissingOption | selectorParseError string | inClusterConfigError string

definition defaultResyncPeriod :: int where
  \<comment> \<open>15 minutes, in nanoseconds\<close>
  "defaultResyncPeriod = 15 * 60 * 1000000000"

text \<open>The three counters. A labelled counter is the list of the label pairs it was incremented with.\<close>

record metrics =
  metricUpdatesReceived :: "(string \<times> string) list"
  metricUpdatesApplied :: "(string \<times> string) list"
  metricUpdatesRejected :: nat

datatype mutatorCall = CallUpsertCnames "cnameRecord list" | CallDeleteCnames "cnameRecord list"

record dnsZone =
  UpsertCnames :: "cnameRecord list \<Rightarrow> string option"
  DeleteCnames :: "cnameRecord list \<Rightarrow> string option"
  Domain_zone :: string
  ListNameservers :: "string list"

text \<open>
  Package-level state and library calls: the shared DNS client (\<open>Exchange\<close> of a CNAME
  question for a name at a nameserver: a transport error or the answer section), the
  \<open>dryRun\<close> flag, the regular-expression and label-selector libraries outside their
  modelled fragments, and the in-cluster configuration (an error or a configuration).
  They are read as a snapshot that does not change while one batch is pruned.
\<close>

record runtime =
  dnsClient_Exchange :: "string \<Rightarrow> string \<Rightarrow> string + rr list"
  dryRun :: bool
  regexp_ext :: "string \<Rightarrow> string \<Rightarrow> string + bool"
  labels_ext :: "string \<Rightarrow> string + ((string \<rightharpoonup> string) \<Rightarrow> bool)"
  rest_InClusterConfig :: "string + string"

text \<open>
  The registrator embeds the zone and the ingress watcher. Of the watcher only
  \<open>HostnameOwners\<close> is used here; its code is not part of the sources at hand, so the
  ownership index is a parameter: the names of the live ingresses that list a hostname.
\<close>

record registrator =
  zone :: dnsZone
  HostnameOwners :: "string \<Rightarrow> string list"
  options :: registratorOptions
  sats :: "selectorAndTarget list"

section \<open>Deduplication\<close>

fun stringInSlice :: "string \<Rightarrow> string list \<Rightarrow> bool" where
  "stringInSlice s [] = False"
| "stringInSlice s (x # slice) = (if s = x then True else stringInSlice s slice)"

fun recordHostnameInSlice :: "string \<Rightarrow> cnameRecord list \<Rightarrow> bool" where
  "recordHostnameInSlice h [] = False"
| "recordHostnameInSlice h (x # records) =
     (if h = Hostname x then True else recordHostnameInSlice h records)"

fun recordTargetsAllMatch :: "string \<Rightarrow> cnameRecord list \<Rightarrow> bool" where
  "recordTargetsAllMatch target [] = True"
| "recordTargetsAllMatch target (r # records) =
     (if target \<noteq> Target r then False else recordTargetsAllMatch target records)"

text \<open>The inner loop of \<open>uniqueRecords\<close>: \<open>j\<close> is the index of the head of the remaining list.\<close>

fun duplicatesOf :: "nat \<Rightarrow> cnameRecord \<Rightarrow> nat \<Rightarrow> cnameRecord list \<Rightarrow> cnameRecord list" where
  "duplicatesOf i r1 j [] = []"
| "duplicatesOf i r1 j (r2 # rest) =
     (if i \<noteq> j \<and> Hostname r1 = Hostname r2 then r2 # duplicatesOf i r1 (Suc j) rest
      else duplicatesOf i r1 (Suc j) rest)"

text \<open>
  The outer loop: \<open>i\<close> is the index of the head of the remaining list, \<open>uniq\<close> and
  \<open>rejected\<close> are the two slices the source appends to.
\<close>

fun uniqueRecords_loop ::
  "cnameRecord list \<Rightarrow> nat \<Rightarrow> cnameRecord list \<Rightarrow> cnameRecord list \<Rightarrow> string list
   \<Rightarrow> cnameRecord list \<times> string list" where
  "uniqueRecords_loop records i [] uniq rejected = (uniq, rejected)"
| "uniqueRecords_loop records i (r1 # rest) uniq rejected =
     (if stringInSlice (Hostname r1) rejected \<or> recordHostnameInSlice (Hostname r1) uniq
      then uniqueRecords_loop records (Suc i) rest uniq rejected
      else if recordTargetsAllMatch (Target r1) (duplicatesOf i r1 0 records)
      then uniqueRecords_loop records (Suc i) rest (uniq @ [r1]) rejected
      else uniqueRecords_loop records (Suc i) rest uniq (rejected @ [Hostname r1]))"

text \<open>
  \<open>uniqueRecords\<close> returns the surviving records; the value of the counter
  \<open>metricUpdatesRejected\<close> is passed in and returned (a counter of whole numbers, so a
  natural number).
\<close>

definition uniqueRecords :: "cnameRecord list \<Rightarrow> nat \<Rightarrow> cnameRecord list \<times> nat" where
  "uniqueRecords records updatesRejected =
     (case uniqueRecords_loop records 0 records [] [] of
        (uniq, rejectedRecords) \<Rightarrow>
          (uniq,
           if length rejectedRecords > 0 then updatesRejected + length rejectedRecords
           else updatesRejected))"

section \<open>Live DNS resolution\<close>

text \<open>
  \<open>resolveCname\<close>: \<open>exch\<close> is the exchange of the question for the name with one
  nameserver. The first component of the result lists the nameservers queried, in order;
  the second is what the function returns, or the panic of the unchecked type assertion.
\<close>

fun resolveCname_loop ::
  "(string \<Rightarrow> string + rr list) \<Rightarrow> string list \<Rightarrow> string \<Rightarrow> error option
   \<Rightarrow> string list \<times> (panic + string \<times> error option)" where
  "resolveCname_loop exch [] retTarget retError = ([], Inr (retTarget, retError))"
| "resolveCname_loop exch (nameserver # rest) retTarget retError =
     (case exch nameserver of
        Inl err \<Rightarrow>
          (case resolveCname_loop exch rest retTarget (Some (exchangeError err)) of
             (queried, res) \<Rightarrow> (nameserver # queried, res))
      | Inr answer \<Rightarrow>
          (case answer of
             [] \<Rightarrow>
               (case resolveCname_loop exch rest retTarget (Some errDNSEmptyAnswer) of
                  (queried, res) \<Rightarrow> (nameserver # queried, res))
           | a # _ \<Rightarrow>
               (case a of
                  CNAME t \<Rightarrow> ([nameserver], Inr (t, None))
                | OtherRR \<Rightarrow> ([nameserver], Inl TypeAssertionPanic))))"

definition resolveCname_queries :: "runtime \<Rightarrow> string \<Rightarrow> string list \<Rightarrow> string list" where
  "resolveCname_queries rt name nameservers =
     fst (resolveCname_loop (dnsClient_Exchange rt name) nameservers [] None)"

definition resolveCname ::
  "runtime \<Rightarrow> string \<Rightarrow> string list \<Rightarrow> panic + string \<times> error option" where
  "resolveCname rt name nameservers =
     snd (resolveCname_loop (dnsClient_Exchange rt name) nameservers [] None)"

section \<open>The prune stage\<close>

definition canHandleRecord :: "runtime \<Rightarrow> registrator \<Rightarrow> string \<Rightarrow> bool" where
  "canHandleRecord rt r record =
     (let zone' = strings_Trim (Domain_zone (zone r)) ''.'';
          record' = strings_Trim record ''.''
      in case regexp_MatchString (regexp_ext rt)
                (''^[^.]+'' @ [CHR 0x5C, CHR ''.'']
                   @ strings_Replace zone' (CHR ''.'') [CHR 0x5C, CHR ''.''] @ ''$'')
                record' of
           Inl err \<Rightarrow> False
         | Inr matches \<Rightarrow> matches)"

text \<open>
  The loop of \<open>pruneBatch\<close> over the records, with the slice \<open>pruned\<close> and the value of
  the counter \<open>metricUpdatesRejected\<close> as state. A panic of the resolver ends it.
\<close>

fun pruneBatch_loop ::
  "runtime \<Rightarrow> registrator \<Rightarrow> string \<Rightarrow> cnameRecord list \<Rightarrow> cnameRecord list \<Rightarrow> nat
   \<Rightarrow> panic + cnameRecord list \<times> nat" where
  "pruneBatch_loop rt r action [] pruned rejected = Inr (pruned, rejected)"
| "pruneBatch_loop rt r action (u # us) pruned rejected =
     (if \<not> canHandleRecord rt r (Hostname u) then
        pruneBatch_loop rt r action us pruned (Suc rejected)
      else
        (case resolveCname rt (strings_Trim (Hostname u) ''.'' @ ''.'')
                (ListNameservers (zone r)) of
           Inl p \<Rightarrow> Inl p
         | Inr (t, err) \<Rightarrow>
             if action = ChangeActionDelete then
               (if length (HostnameOwners r (Hostname u)) > 0 then
                  pruneBatch_loop rt r action us pruned rejected
                else if err = None then
                  pruneBatch_loop rt r action us (pruned @ [u]) rejected
                else if err \<noteq> Some errDNSEmptyAnswer then
                  pruneBatch_loop rt r action us (pruned @ [u]) rejected
                else
                  pruneBatch_loop rt r action us pruned rejected)
             else if action = ChangeActionUpsert then
               (if err \<noteq> None then
                  pruneBatch_loop rt r action us (pruned @ [u]) rejected
                else if strings_Trim t ''.'' \<noteq> Target u then
                  pruneBatch_loop rt r action us (pruned @ [u]) rejected
                else
                  pruneBatch_loop rt r action us pruned rejected)
             else
               pruneBatch_loop rt r action us pruned rejected))"

definition pruneBatch ::
  "runtime \<Rightarrow> registrator \<Rightarrow> string \<Rightarrow> cnameRecord list \<Rightarrow> nat
   \<Rightarrow> panic + cnameRecord list \<times> nat" where
  "pruneBatch rt r action records updatesRejected =
     (case pruneBatch_loop rt r action records [] updatesRejected of
        Inl p \<Rightarrow> Inl p
      | Inr (pruned, rejected) \<Rightarrow> Inr (uniqueRecords pruned rejected))"

section \<open>Label selectors and target selection\<close>

text \<open>
  \<open>labels.Parse\<close> belongs to the Kubernetes label library. It is modelled exactly on the
  strings \<open>key=value\<close> whose key and value are plain names (letters, digits, \<open>-\<close>,
  \<open>_\<close> and \<open>.\<close>, at most 63 characters, beginning and ending with a letter or digit,
  and not one of the operator words): there the result is the selector that matches a
  label set iff it has the key with exactly that value. On every other string the library's
  answer is a parameter (\<open>labels_ext\<close>).
\<close>

definition alnumChar :: "char \<Rightarrow> bool" where
  "alnumChar c =
     (c \<in> set ''abcdefghijklmnopqrstuvwxyzABCDEFGHIJKLMNOPQRSTUVWXYZ0123456789'')"

definition plainName :: "string \<Rightarrow> bool" where
  "plainName n =
     (n \<noteq> [] \<and> length n \<le> 63 \<and> alnumChar (hd n) \<and> alnumChar (last n)
      \<and> list_all (\<lambda>c. alnumChar c \<or> c \<in> set ''-_.'') n
      \<and> n \<noteq> ''in'' \<and> n \<noteq> ''notin'')"

definition labels_Parse ::
  "(string \<Rightarrow> string + ((string \<rightharpoonup> string) \<Rightarrow> bool)) \<Rightarrow> string
   \<Rightarrow> string + ((string \<rightharpoonup> string) \<Rightarrow> bool)" where
  "labels_Parse ext s =
     (let key = takeWhile (\<lambda>c. c \<noteq> CHR ''='') s;
          rest = dropWhile (\<lambda>c. c \<noteq> CHR ''='') s
      in case rest of
           [] \<Rightarrow> ext s
         | eq # val \<Rightarrow>
             if plainName key \<and> plainName val then Inr (\<lambda>ls. ls key = Some val)
             else ext s)"

text \<open>The loop of \<open>newRegistratorWithOptions\<close> that builds the selector-and-target list.\<close>

fun newRegistrator_sats ::
  "runtime \<Rightarrow> string \<Rightarrow> string list \<Rightarrow> selectorAndTarget list
   \<Rightarrow> configError + selectorAndTarget list" where
  "newRegistrator_sats rt labelName [] sats' = Inr sats'"
| "newRegistrator_sats rt labelName (target # targets) sats' =
     (case labels_Parse (labels_ext rt) (labelName @ ''='' @ target) of
        Inl err \<Rightarrow> Inl (selectorParseError err)
      | Inr s \<Rightarrow>
          newRegistrator_sats rt labelName targets
            (sats' @ [\<lparr>Selector = s, satTarget = target\<rparr>]))"

text \<open>
  \<open>newRegistratorWithOptions\<close> yields the options as completed and the selector list;
  the embedded zone and watcher are set later by \<open>Start\<close>.
\<close>

definition newRegistratorWithOptions ::
  "runtime \<Rightarrow> registratorOptions \<Rightarrow> configError + registratorOptions \<times> selectorAndTarget list" where
  "newRegistratorWithOptions rt opts =
     (if length (Targets opts) = 0 \<or> Route53ZoneID opts = [] \<or> TargetLabelName opts = []
      then Inl errRegistratorMissingOption
      else
        (case newRegistrator_sats rt (TargetLabelName opts) (Targets opts) [] of
           Inl err \<Rightarrow> Inl err
         | Inr sats' \<Rightarrow>
             (let opts1 = (if AWSSessionOptions opts = None
                           then opts\<lparr>AWSSessionOptions := Some []\<rparr> else opts)
              in case (if KubernetesConfig opts1 = None
                       then (case rest_InClusterConfig rt of
                               Inl err \<Rightarrow> Inl (inClusterConfigError err)
                             | Inr c \<Rightarrow> Inr (opts1\<lparr>KubernetesConfig := Some c\<rparr>))
                       else Inr opts1) of
                   Inl err \<Rightarrow> Inl err
                 | Inr opts2 \<Rightarrow>
                     Inr (if ResyncPeriod opts2 = 0
                          then opts2\<lparr>ResyncPeriod := defaultResyncPeriod\<rparr> else opts2,
                          sats'))))"

fun getTargetForIngress_loop :: "selectorAndTarget list \<Rightarrow> ingress \<Rightarrow> string" where
  "getTargetForIngress_loop [] ing = []"
| "getTargetForIngress_loop (sat # rest) ing =
     (if Selector sat (Labels ing) then satTarget sat else getTargetForIngress_loop rest ing)"

definition getTargetForIngress :: "registrator \<Rightarrow> ingress \<Rightarrow> string" where
  "getTargetForIngress r ing = getTargetForIngress_loop (sats r) ing"

section \<open>The event handler\<close>

text \<open>
  Modelled from the spec: \<open>getHostnamesFromIngress\<close>, whose code is not part of the
  sources at hand. It returns the ordered, de-duplicated list of rule hosts, preserving
  first-occurrence order.
\<close>

fun firstOccurrences :: "string list \<Rightarrow> string list \<Rightarrow> string list" where
  "firstOccurrences [] seen = seen"
| "firstOccurrences (h # hs) seen =
     (if h \<in> set seen then firstOccurrences hs seen else firstOccurrences hs (seen @ [h]))"

definition getHostnamesFromIngress :: "ingress \<Rightarrow> string list" where
  "getHostnamesFromIngress ing = firstOccurrences (Hosts ing) []"

fun existsIn :: "string \<Rightarrow> string list \<Rightarrow> bool" where
  \<comment> \<open>the inner loop of \<open>diffStringSlices\<close>\<close>
  "existsIn va [] = False"
| "existsIn va (vb # b) = (if va = vb then True else existsIn va b)"

fun diffStringSlices_loop :: "string list \<Rightarrow> string list \<Rightarrow> string list \<Rightarrow> string list" where
  "diffStringSlices_loop [] b ret = ret"
| "diffStringSlices_loop (va # a) b ret =
     (if \<not> existsIn va b then diffStringSlices_loop a b (ret @ [va])
      else diffStringSlices_loop a b ret)"

definition diffStringSlices :: "string list \<Rightarrow> string list \<Rightarrow> string list" where
  "diffStringSlices a b = diffStringSlices_loop a b []"

text \<open>
  The update queue is a channel; it is modelled as the list of the changes sent, in order
  (a send that would block on a full channel is not modelled).
\<close>

fun queueUpdates ::
  "string \<Rightarrow> string list \<Rightarrow> string \<Rightarrow> cnameChange list \<Rightarrow> cnameChange list" where
  "queueUpdates action [] target updateQueue = updateQueue"
| "queueUpdates action (h # hostnames) target updateQueue =
     queueUpdates action hostnames target
       (updateQueue @ [\<lparr>Action = action, Record = \<lparr>Hostname = h, Target = target\<rparr>\<rparr>])"

text \<open>
  The handler takes the two ingress pointers (\<open>None\<close> is nil), the queue and the counters,
  and returns the queue and the counters, or the panic of a nil dereference.
\<close>

definition handler ::
  "registrator \<Rightarrow> eventType \<Rightarrow> ingress option \<Rightarrow> ingress option
   \<Rightarrow> cnameChange list \<times> metrics \<Rightarrow> panic + cnameChange list \<times> metrics" where
  "handler r evType oldIngress newIngress st =
     (case st of (updateQueue, ms) \<Rightarrow>
      (case evType of
         Added \<Rightarrow>
           (case newIngress of
              None \<Rightarrow> Inl NilDereferencePanic
            | Some new \<Rightarrow>
                (let ms1 = ms\<lparr>metricUpdatesReceived := metricUpdatesReceived ms @ [(Name new, ''add'')]\<rparr>;
                     hostnames = getHostnamesFromIngress new;
                     target = getTargetForIngress r new
                 in if target = [] then Inr (updateQueue, ms1)
                    else if length hostnames = 0 then Inr (updateQueue, ms1)
                    else Inr (queueUpdates ChangeActionUpsert hostnames target updateQueue, ms1)))
       | Modified \<Rightarrow>
           (case newIngress of
              None \<Rightarrow> Inl NilDereferencePanic
            | Some new \<Rightarrow>
                (case oldIngress of
                   None \<Rightarrow> Inl NilDereferencePanic
                 | Some old \<Rightarrow>
                     (let ms1 = ms\<lparr>metricUpdatesReceived :=
                                      metricUpdatesReceived ms @ [(Name new, ''modify'')]\<rparr>;
                          newHostnames = getHostnamesFromIngress new;
                          newTarget = getTargetForIngress r new;
                          oldHostnames = getHostnamesFromIngress old;
                          oldTarget = getTargetForIngress r old;
                          diffHostnames = diffStringSlices oldHostnames newHostnames
                      in if length diffHostnames = 0
                            \<and> labelValue new (TargetLabelName (options r))
                                = labelValue old (TargetLabelName (options r))
                         then Inr (updateQueue, ms1)
                         else
                           (let q1 = (if newTarget = [] then updateQueue
                                      else if length newHostnames = 0 then updateQueue
                                      else queueUpdates ChangeActionUpsert newHostnames newTarget
                                             updateQueue);
                                q2 = (if oldTarget = [] then q1
                                      else if length diffHostnames = 0 then q1
                                      else queueUpdates ChangeActionDelete diffHostnames oldTarget q1)
                            in Inr (q2, ms1)))))
       | Deleted \<Rightarrow>
           (case oldIngress of
              None \<Rightarrow> Inl NilDereferencePanic
            | Some old \<Rightarrow>
                (let ms1 = ms\<lparr>metricUpdatesReceived := metricUpdatesReceived ms @ [(Name old, ''delete'')]\<rparr>;
                     hostnames = getHostnamesFromIngress old;
                     target = getTargetForIngress r old
                 in if target = [] then Inr (updateQueue, ms1)
                    else if length hostnames = 0 then Inr (updateQueue, ms1)
                    else Inr (queueUpdates ChangeActionDelete hostnames target updateQueue, ms1)))
       | OtherEvent \<Rightarrow> Inr (updateQueue, ms)))"

section \<open>Batching and applying\<close>

text \<open>
  \<open>applyBatch\<close> returns the counters and the mutator calls it made (none or one), or the
  panic of indexing an empty batch or of the resolver.
\<close>

definition applyBatch ::
  "runtime \<Rightarrow> registrator \<Rightarrow> cnameChange list \<Rightarrow> metrics \<Rightarrow> panic + metrics \<times> mutatorCall list" where
  "applyBatch rt r changes ms =
     (case changes of
        [] \<Rightarrow> Inl IndexOutOfRangePanic
      | c0 # _ \<Rightarrow>
          (let action = Action c0;
               records = map Record changes
           in case pruneBatch rt r action records (metricUpdatesRejected ms) of
                Inl p \<Rightarrow> Inl p
              | Inr (pruned, rejected) \<Rightarrow>
                  (let ms1 = ms\<lparr>metricUpdatesRejected := rejected\<rparr>
                   in if length pruned = 0 then Inr (ms1, [])
                      else if action = ChangeActionDelete then
                        (if \<not> dryRun rt then
                           (case DeleteCnames (zone r) pruned of
                              Some err \<Rightarrow> Inr (ms1, [CallDeleteCnames pruned])
                            | None \<Rightarrow>
                                Inr (ms1\<lparr>metricUpdatesApplied := metricUpdatesApplied ms1
                                           @ map (\<lambda>p. (Hostname p, ''delete'')) pruned\<rparr>,
                                     [CallDeleteCnames pruned]))
                         else Inr (ms1, []))
                      else
                        (if \<not> dryRun rt then
                           (case UpsertCnames (zone r) pruned of
                              Some err \<Rightarrow> Inr (ms1, [CallUpsertCnames pruned])
                            | None \<Rightarrow>
                                Inr (ms1\<lparr>metricUpdatesApplied := metricUpdatesApplied ms1
                                           @ map (\<lambda>p. (Hostname p, ''upsert'')) pruned\<rparr>,
                                     [CallUpsertCnames pruned]))
                         else Inr (ms1, [])))))"

text \<open>
  The state of the reconciler beside its buffer: the counters, the mutator calls made so
  far, and (for reasoning only) the batches handed to \<open>applyBatch\<close> so far.
\<close>

record reconciler =
  counters :: metrics
  calls :: "mutatorCall list"
  batches :: "cnameChange list list"

definition flush ::
  "runtime \<Rightarrow> registrator \<Rightarrow> cnameChange list \<Rightarrow> reconciler \<Rightarrow> reconciler \<times> panic option" where
  \<comment> \<open>one call \<open>r.applyBatch(ret)\<close>\<close>
  "flush rt r ret st =
     (let st1 = st\<lparr>batches := batches st @ [ret]\<rparr>
      in case applyBatch rt r ret (counters st1) of
           Inl p \<Rightarrow> (st1, Some p)
         | Inr (ms, cs) \<Rightarrow> (st1\<lparr>counters := ms, calls := calls st1 @ cs\<rparr>, None))"

text \<open>
  Each turn of the loop of \<open>processUpdateQueue\<close> takes one branch of the \<open>select\<close>: a
  change received, the stop channel closed, or the default branch. The loop is run on the
  list of the branches taken; when the list ends before the stop, the loop is still running
  with its buffer.
\<close>

datatype selectCase = Receive cnameChange | StopChannel | Default

datatype outcome = Returned | Panicked panic | Running "cnameChange list"

fun processUpdateQueue_loop ::
  "runtime \<Rightarrow> registrator \<Rightarrow> selectCase list \<Rightarrow> cnameChange list \<Rightarrow> reconciler
   \<Rightarrow> reconciler \<times> outcome" where
  "processUpdateQueue_loop rt r [] ret st = (st, Running ret)"
| "processUpdateQueue_loop rt r (Receive t # evs) ret st =
     (if length ret > 0
         \<and> ((Action (ret ! 0) = ChangeActionDelete \<and> Action t \<noteq> ChangeActionDelete)
            \<or> (Action (ret ! 0) \<noteq> ChangeActionDelete \<and> Action t = ChangeActionDelete))
      then (case flush rt r ret st of
              (st', Some p) \<Rightarrow> (st', Panicked p)
            | (st', None) \<Rightarrow> processUpdateQueue_loop rt r evs ([] @ [t]) st')
      else processUpdateQueue_loop rt r evs (ret @ [t]) st)"
| "processUpdateQueue_loop rt r (StopChannel # evs) ret st =
     (if length ret > 0
      then (case flush rt r ret st of
              (st', Some p) \<Rightarrow> (st', Panicked p)
            | (st', None) \<Rightarrow> (st', Returned))
      else (st, Returned))"
| "processUpdateQueue_loop rt r (Default # evs) ret st =
     (if length ret > 0
      then (case flush rt r ret st of
              (st', Some p) \<Rightarrow> (st', Panicked p)
            | (st', None) \<Rightarrow> processUpdateQueue_loop rt r evs [] st')
      else processUpdateQueue_loop rt r evs ret st)"

definition processUpdateQueue ::
  "runtime \<Rightarrow> registrator \<Rightarrow> selectCase list \<Rightarrow> reconciler \<Rightarrow> reconciler \<times> outcome" where
  "processUpdateQueue rt r evs st = processUpdateQueue_loop rt r evs [] st"

section \<open>Vocabulary of the properties\<close>

definition agree :: "cnameRecord list \<Rightarrow> cnameRecord \<Rightarrow> bool" where
  \<comment> \<open>every record with the hostname of \<open>r1\<close> has the target of \<open>r1\<close>\<close>
  "agree records r1 = (\<forall>r\<in>set records. Hostname r = Hostname r1 \<longrightarrow> Target r = Target r1)"

definition hostnameConsistent :: "cnameRecord list \<Rightarrow> string \<Rightarrow> bool" where
  \<comment> \<open>all records with hostname \<open>h\<close> have the same target\<close>
  "hostnameConsistent records h =
     (\<forall>r\<in>set records. \<forall>r'\<in>set records.
        Hostname r = h \<and> Hostname r' = h \<longrightarrow> Target r = Target r')"

definition loopInv ::
  "cnameRecord list \<Rightarrow> cnameRecord list \<Rightarrow> cnameRecord list \<Rightarrow> string list \<Rightarrow> bool" where
  \<comment> \<open>the invariant of the outer loop of \<open>uniqueRecords\<close> after the prefix \<open>pre\<close>\<close>
  "loopInv records pre uniq rej \<longleftrightarrow>
     distinct (map Hostname uniq) \<and> distinct rej \<and> Hostname ` set uniq \<inter> set rej = {}
     \<and> Hostname ` set uniq \<union> set rej = Hostname ` set pre
     \<and> set uniq \<subseteq> set records \<and> (\<forall>u\<in>set uniq. agree records u)
     \<and> (\<forall>h\<in>set rej. \<exists>r\<in>set records. Hostname r = h \<and> \<not> agree records r)"

definition answered :: "(string \<Rightarrow> string + rr list) \<Rightarrow> string \<Rightarrow> bool" where
  \<comment> \<open>the nameserver returns at least one answer record\<close>
  "answered exch nameserver =
     (case exch nameserver of Inl err \<Rightarrow> False | Inr answer \<Rightarrow> answer \<noteq> [])"

definition failure :: "(string \<Rightarrow> string + rr list) \<Rightarrow> string \<Rightarrow> error" where
  \<comment> \<open>the error remembered for a nameserver that gave no answer record\<close>
  "failure exch nameserver =
     (case exch nameserver of Inl err \<Rightarrow> exchangeError err | Inr answer \<Rightarrow> errDNSEmptyAnswer)"

definition zoneChars :: "string \<Rightarrow> bool" where
  \<comment> \<open>a zone name without regular-expression metacharacters other than the dot\<close>
  "zoneChars z = list_all (\<lambda>c. c = CHR ''.'' \<or> literalChar c) z"

text \<open>
  The live query of the prune stage for a record, and the test that the loop of
  \<open>pruneBatch\<close> applies to one record (scope check, then the policy of the action).
\<close>

definition liveQuery :: "runtime \<Rightarrow> registrator \<Rightarrow> cnameRecord \<Rightarrow> panic + string \<times> error option" where
  "liveQuery rt r u =
     resolveCname rt (strings_Trim (Hostname u) ''.'' @ ''.'') (ListNameservers (zone r))"

definition queryPanics :: "runtime \<Rightarrow> registrator \<Rightarrow> cnameRecord \<Rightarrow> bool" where
  "queryPanics rt r u =
     (canHandleRecord rt r (Hostname u)
      \<and> (case liveQuery rt r u of Inl p \<Rightarrow> True | Inr res \<Rightarrow> False))"

definition keepRecord :: "runtime \<Rightarrow> registrator \<Rightarrow> string \<Rightarrow> cnameRecord \<Rightarrow> bool" where
  "keepRecord rt r action u =
     (canHandleRecord rt r (Hostname u)
      \<and> (case liveQuery rt r u of
           Inl p \<Rightarrow> False
         | Inr (t, err) \<Rightarrow>
             if action = ChangeActionDelete
             then HostnameOwners r (Hostname u) = [] \<and> err \<noteq> Some errDNSEmptyAnswer
             else if action = ChangeActionUpsert
             then err \<noteq> None \<or> strings_Trim t ''.'' \<noteq> Target u
             else False))"

text \<open>
  The scope as the specification words it: trailing dots stripped, then one non-empty label
  without a dot, a dot, and the apex.
\<close>

definition strings_TrimRight :: "string \<Rightarrow> string \<Rightarrow> string" where
  "strings_TrimRight s cutset = rev (dropWhile (\<lambda>c. c \<in> set cutset) (rev s))"

definition singleLabelBelow :: "string \<Rightarrow> string \<Rightarrow> bool" where
  "singleLabelBelow name apex =
     (length apex + 1 < length name
      \<and> drop (length name - (length apex + 1)) name = ''.'' @ apex
      \<and> CHR ''.'' \<notin> set (take (length name - (length apex + 1)) name))"

fun mutatorRecords :: "mutatorCall \<Rightarrow> cnameRecord list" where
  "mutatorRecords (CallUpsertCnames records) = records"
| "mutatorRecords (CallDeleteCnames records) = records"

text \<open>
  Batching: a buffer or batch all of whose changes are DELETE or none of whose changes is
  (the distinction the loop of \<open>processUpdateQueue\<close> makes), the test of the loop for an
  arriving change, and a mutator call that some \<open>applyBatch\<close> of one of the given batches
  made.
\<close>

definition batchOK :: "cnameChange list \<Rightarrow> bool" where
  "batchOK b = (\<forall>c\<in>set b. (Action c = ChangeActionDelete) = (Action (hd b) = ChangeActionDelete))"

definition callFrom :: "runtime \<Rightarrow> registrator \<Rightarrow> cnameChange list list \<Rightarrow> mutatorCall \<Rightarrow> bool" where
  "callFrom rt r bs c =
     (\<exists>b\<in>set bs. \<exists>ms ms' cs. applyBatch rt r b ms = Inr (ms', cs) \<and> c \<in> set cs)"

definition actionBoundary :: "cnameChange list \<Rightarrow> cnameChange \<Rightarrow> bool" where
  "actionBoundary ret t =
     (length ret > 0
      \<and> ((Action (ret ! 0) = ChangeActionDelete \<and> Action t \<noteq> ChangeActionDelete)
         \<or> (Action (ret ! 0) \<noteq> ChangeActionDelete \<and> Action t = ChangeActionDelete)))"

subsection \<open>Example data\<close>

definition exampleExchange :: "string \<Rightarrow> string \<Rightarrow> string + rr list" where
  "exampleExchange name nameserver =
     (if nameserver = ''ns1:53'' then Inl ''i/o timeout''
      else if nameserver = ''ns2:53'' then Inr []
      else if nameserver = ''ns3:53'' then
        (if name = ''foo.example.com.'' then Inr [CNAME ''public.example.net.'']
         else if name = ''wrong.sub.example.com.'' then Inr [CNAME ''public.example.net.'']
         else if name = ''odd.example.com.'' then Inr [OtherRR, CNAME ''public.example.net.'']
         else Inr [])
      else Inl ''no route to host'')"

definition exampleRuntime :: runtime where
  "exampleRuntime =
     \<lparr>dnsClient_Exchange = exampleExchange, dryRun = False,
      regexp_ext = (\<lambda>pattern s. Inl ''outside the modelled fragment''),
      labels_ext = (\<lambda>s. Inl ''outside the modelled fragment''),
      rest_InClusterConfig = Inl ''not in a cluster''\<rparr>"

definition exampleRegistrator :: registrator where
  "exampleRegistrator =
     \<lparr>zone = \<lparr>UpsertCnames = (\<lambda>records. None), DeleteCnames = (\<lambda>records. None),
              Domain_zone = ''example.com.'',
              ListNameservers = [''ns1:53'', ''ns2:53'', ''ns3:53'']\<rparr>,
      HostnameOwners = (\<lambda>h. if h = ''claimed.example.com'' then [''other''] else []),
      options = \<lparr>AWSSessionOptions = Some [], KubernetesConfig = Some ''in-cluster'',
                 Targets = [''public.example.net'', ''private.example.net''],
                 TargetLabelName = ''tier'', Route53ZoneID = ''Z1'',
                 ResyncPeriod = defaultResyncPeriod\<rparr>,
      sats = [\<lparr>Selector = (\<lambda>ls. ls ''tier'' = Some ''public.example.net''),
               satTarget = ''public.example.net''\<rparr>,
              \<lparr>Selector = (\<lambda>ls. ls ''tier'' = Some ''private.example.net''),
               satTarget = ''private.example.net''\<rparr>]\<rparr>"

definition exampleEvents :: "selectCase list" where
  "exampleEvents =
     [Receive \<lparr>Action = ChangeActionUpsert,
               Record = \<lparr>Hostname = ''bar.example.com'', Target = ''public.example.net''\<rparr>\<rparr>,
      Receive \<lparr>Action = ChangeActionUpsert,
               Record = \<lparr>Hostname = ''baz.example.com'', Target = ''public.example.net''\<rparr>\<rparr>,
      Receive \<lparr>Action = ChangeActionDelete,
               Record = \<lparr>Hostname = ''foo.example.com'', Target = ''public.example.net''\<rparr>\<rparr>,
      Default, StopChannel]"

definition exampleStart :: reconciler where
  "exampleStart =
     \<lparr>counters = \<lparr>metricUpdatesReceived = [], metricUpdatesApplied = [],
                   metricUpdatesRejected = 0\<rparr>,
      calls = [], batches = []\<rparr>"

definition exampleIngressOld :: ingress where
  "exampleIngressOld =
     \<lparr>Name = ''A'', Labels = [''tier'' \<mapsto> ''private.example.net''],
      Hosts = [''foo.example.com'']\<rparr>"

definition exampleIngressNew :: ingress where
  "exampleIngressNew =
     \<lparr>Name = ''A'', Labels = [''tier'' \<mapsto> ''private.example.net''],
      Hosts = [''foo.example.com'', ''bar.example.com'', ''foo.example.com'']\<rparr>"

definition exampleIngressUnlabelled :: ingress where
  "exampleIngressUnlabelled =
     \<lparr>Name = ''B'', Labels = [''team'' \<mapsto> ''blue''], Hosts = [''baz.example.com'']\<rparr>"

definition exampleOptions :: registratorOptions where
  "exampleOptions =
     \<lparr>AWSSessionOptions = None, KubernetesConfig = Some ''kubeconfig'',
      Targets = [''public.example.net'', ''private.example.net''],
      TargetLabelName = ''tier'', Route53ZoneID = ''Z1'', ResyncPeriod = 0\<rparr>"

definition exampleCounters :: metrics where
  "exampleCounters =
     \<lparr>metricUpdatesReceived = [], metricUpdatesApplied = [], metricUpdatesRejected = 0\<rparr>"

section \<open>Deduplication by hostname\<close>

lemma stringInSlice_iff: "stringInSlice s xs \<longleftrightarrow> s \<in> set xs"
  by (induction xs) auto

lemma recordHostnameInSlice_iff: "recordHostnameInSlice h xs \<longleftrightarrow> h \<in> Hostname ` set xs"
  by (induction xs) auto

lemma recordTargetsAllMatch_iff: "recordTargetsAllMatch t xs \<longleftrightarrow> (\<forall>r\<in>set xs. Target r = t)"
  by (induction xs) auto

lemma set_duplicatesOf:
  "set (duplicatesOf i r1 j xs) =
     {xs ! k | k. k < length xs \<and> i \<noteq> j + k \<and> Hostname r1 = Hostname (xs ! k)}"
proof (induction xs arbitrary: j)
  case Nil
  then show ?case by simp
next
  case (Cons x xs)
  have split: "{(x # xs) ! k | k. k < length (x # xs) \<and> i \<noteq> j + k \<and> Hostname r1 = Hostname ((x # xs) ! k)}
     = (if i \<noteq> j \<and> Hostname r1 = Hostname x then {x} else {})
       \<union> {xs ! k | k. k < length xs \<and> i \<noteq> Suc j + k \<and> Hostname r1 = Hostname (xs ! k)}"
    (is "?L = ?A \<union> ?B")
  proof (intro set_eqI iffI)
    fix y assume "y \<in> ?L"
    then obtain k where k: "y = (x # xs) ! k" "k < length (x # xs)" "i \<noteq> j + k"
      "Hostname r1 = Hostname ((x # xs) ! k)" by blast
    show "y \<in> ?A \<union> ?B"
    proof (cases k)
      case 0
      with k show ?thesis by simp
    next
      case (Suc k')
      with k have "y = xs ! k'" "k' < length xs" "i \<noteq> Suc j + k'" "Hostname r1 = Hostname (xs ! k')"
        by simp_all
      then show ?thesis by blast
    qed
  next
    fix y assume "y \<in> ?A \<union> ?B"
    then consider "y \<in> ?A" | "y \<in> ?B" by blast
    then show "y \<in> ?L"
    proof cases
      case 1
      then have "y = (x # xs) ! 0 \<and> 0 < length (x # xs) \<and> i \<noteq> j + 0 \<and> Hostname r1 = Hostname ((x # xs) ! 0)"
        by (simp split: if_splits)
      then show ?thesis by blast
    next
      case 2
      then obtain k where "y = xs ! k" "k < length xs" "i \<noteq> Suc j + k" "Hostname r1 = Hostname (xs ! k)"
        by blast
      then have "y = (x # xs) ! Suc k \<and> Suc k < length (x # xs) \<and> i \<noteq> j + Suc k
          \<and> Hostname r1 = Hostname ((x # xs) ! Suc k)" by simp
      then show ?thesis by blast
    qed
  qed
  show ?case unfolding split using Cons.IH [of "Suc j"] by auto
qed

lemma duplicates_agree:
  assumes "i < length records"
  shows "recordTargetsAllMatch (Target (records ! i)) (duplicatesOf i (records ! i) 0 records)
         \<longleftrightarrow> agree records (records ! i)"
proof -
  let ?r1 = "records ! i"
  have "(\<forall>r\<in>set (duplicatesOf i ?r1 0 records). Target r = Target ?r1) \<longleftrightarrow> agree records ?r1"
  proof
    assume L: "\<forall>r\<in>set (duplicatesOf i ?r1 0 records). Target r = Target ?r1"
    show "agree records ?r1" unfolding agree_def
    proof (intro ballI impI)
      fix r assume "r \<in> set records" and h: "Hostname r = Hostname ?r1"
      then obtain k where k: "k < length records" "r = records ! k" by (auto simp: in_set_conv_nth)
      show "Target r = Target ?r1"
      proof (cases "k = i")
        case True with k show ?thesis by simp
      next
        case False
        with k h have "r \<in> set (duplicatesOf i ?r1 0 records)"
          unfolding set_duplicatesOf by auto
        with L show ?thesis by blast
      qed
    qed
  next
    assume "agree records ?r1"
    then show "\<forall>r\<in>set (duplicatesOf i ?r1 0 records). Target r = Target ?r1"
      unfolding agree_def set_duplicatesOf by auto
  qed
  then show ?thesis by (simp add: recordTargetsAllMatch_iff)
qed

lemma loopInv_skip:
  assumes "loopInv records pre uniq rej"
    and "Hostname r1 \<in> set rej \<or> Hostname r1 \<in> Hostname ` set uniq"
  shows "loopInv records (pre @ [r1]) uniq rej"
proof -
  from assms(1) have cover: "Hostname ` set uniq \<union> set rej = Hostname ` set pre"
    by (simp add: loopInv_def)
  with assms(2) have "Hostname ` set uniq \<union> set rej = Hostname ` set (pre @ [r1])"
    by auto
  with assms(1) show ?thesis by (simp add: loopInv_def)
qed

lemma loopInv_keep:
  assumes "loopInv records pre uniq rej"
    and new: "Hostname r1 \<notin> set rej" "Hostname r1 \<notin> Hostname ` set uniq"
    and r1: "r1 \<in> set records" "agree records r1"
  shows "loopInv records (pre @ [r1]) (uniq @ [r1]) rej"
proof -
  from assms(1) have inv: "distinct (map Hostname uniq)" "distinct rej"
    "Hostname ` set uniq \<inter> set rej = {}"
    "Hostname ` set uniq \<union> set rej = Hostname ` set pre"
    "set uniq \<subseteq> set records" "\<forall>u\<in>set uniq. agree records u"
    "\<forall>h\<in>set rej. \<exists>r\<in>set records. Hostname r = h \<and> \<not> agree records r"
    by (simp_all add: loopInv_def)
  have 1: "distinct (map Hostname (uniq @ [r1]))" using inv(1) new(2) by simp
  have 3: "Hostname ` set (uniq @ [r1]) \<inter> set rej = {}" using inv(3) new(1) by simp
  have 4: "Hostname ` set (uniq @ [r1]) \<union> set rej = Hostname ` set (pre @ [r1])"
    using inv(4) by auto
  have 5: "set (uniq @ [r1]) \<subseteq> set records" using inv(5) r1(1) by simp
  have 6: "\<forall>u\<in>set (uniq @ [r1]). agree records u" using inv(6) r1(2) by simp
  show ?thesis unfolding loopInv_def using 1 inv(2) 3 4 5 6 inv(7) by blast
qed

lemma loopInv_reject:
  assumes "loopInv records pre uniq rej"
    and new: "Hostname r1 \<notin> set rej" "Hostname r1 \<notin> Hostname ` set uniq"
    and r1: "r1 \<in> set records" "\<not> agree records r1"
  shows "loopInv records (pre @ [r1]) uniq (rej @ [Hostname r1])"
proof -
  from assms(1) have inv: "distinct (map Hostname uniq)" "distinct rej"
    "Hostname ` set uniq \<inter> set rej = {}"
    "Hostname ` set uniq \<union> set rej = Hostname ` set pre"
    "set uniq \<subseteq> set records" "\<forall>u\<in>set uniq. agree records u"
    "\<forall>h\<in>set rej. \<exists>r\<in>set records. Hostname r = h \<and> \<not> agree records r"
    by (simp_all add: loopInv_def)
  have 2: "distinct (rej @ [Hostname r1])" using inv(2) new(1) by simp
  have 3: "Hostname ` set uniq \<inter> set (rej @ [Hostname r1]) = {}" using inv(3) new(2) by simp
  have 4: "Hostname ` set uniq \<union> set (rej @ [Hostname r1]) = Hostname ` set (pre @ [r1])"
    using inv(4) by auto
  have 7: "\<forall>h\<in>set (rej @ [Hostname r1]). \<exists>r\<in>set records. Hostname r = h \<and> \<not> agree records r"
    using inv(7) r1 by auto
  show ?thesis unfolding loopInv_def using inv(1) 2 3 4 inv(5) inv(6) 7 by blast
qed

lemma uniqueRecords_loop_inv:
  "records = pre @ rest \<Longrightarrow> i = length pre \<Longrightarrow> loopInv records pre uniq rej \<Longrightarrow>
   uniqueRecords_loop records i rest uniq rej = (uniq', rej') \<Longrightarrow>
   loopInv records records uniq' rej'"
proof (induction rest arbitrary: pre i uniq rej)
  case Nil
  then show ?case by simp
next
  case (Cons r1 rest)
  have r1: "records ! i = r1" "i < length records" "r1 \<in> set records"
    using Cons.prems(1,2) by simp_all
  have next_pre: "records = (pre @ [r1]) @ rest" "Suc i = length (pre @ [r1])"
    using Cons.prems(1,2) by simp_all
  have dup: "recordTargetsAllMatch (Target r1) (duplicatesOf i r1 0 records) \<longleftrightarrow> agree records r1"
    using duplicates_agree [of i records] r1 by simp
  show ?case
  proof (cases "Hostname r1 \<in> set rej \<or> Hostname r1 \<in> Hostname ` set uniq")
    case True
    have inv: "loopInv records (pre @ [r1]) uniq rej"
      using loopInv_skip [OF Cons.prems(3) True] .
    from True Cons.prems(4)
    have "uniqueRecords_loop records (Suc i) rest uniq rej = (uniq', rej')"
      by (simp add: stringInSlice_iff recordHostnameInSlice_iff)
    from Cons.IH [OF next_pre inv this] show ?thesis .
  next
    case False
    then have new: "Hostname r1 \<notin> set rej" "Hostname r1 \<notin> Hostname ` set uniq" by simp_all
    show ?thesis
    proof (cases "agree records r1")
      case True
      have inv: "loopInv records (pre @ [r1]) (uniq @ [r1]) rej"
        using loopInv_keep [OF Cons.prems(3) new r1(3) True] .
      from new True Cons.prems(4) dup
      have "uniqueRecords_loop records (Suc i) rest (uniq @ [r1]) rej = (uniq', rej')"
        by (simp add: stringInSlice_iff recordHostnameInSlice_iff)
      from Cons.IH [OF next_pre inv this] show ?thesis .
    next
      case nag: False
      have inv: "loopInv records (pre @ [r1]) uniq (rej @ [Hostname r1])"
        using loopInv_reject [OF Cons.prems(3) new r1(3) nag] .
      from new nag Cons.prems(4) dup
      have "uniqueRecords_loop records (Suc i) rest uniq (rej @ [Hostname r1]) = (uniq', rej')"
        by (simp add: stringInSlice_iff recordHostnameInSlice_iff)
      from Cons.IH [OF next_pre inv this] show ?thesis .
    qed
  qed
qed

lemma count_by_key:
  "distinct (map f xs) \<Longrightarrow>
   length (filter (\<lambda>x. f x = h) xs) = (if h \<in> f ` set xs then 1 else 0)"
  by (induction xs) auto

lemma uniqueRecords_loop_final:
  assumes "uniqueRecords_loop records 0 records [] [] = (uniq, rej)"
  shows "distinct (map Hostname uniq)" and "distinct rej" and "set uniq \<subseteq> set records"
    and "Hostname ` set uniq = {h \<in> Hostname ` set records. hostnameConsistent records h}"
    and "set rej = {h \<in> Hostname ` set records. \<not> hostnameConsistent records h}"
proof -
  have "loopInv records [] [] []" by (simp add: loopInv_def)
  from uniqueRecords_loop_inv [OF _ _ this assms]
  have "loopInv records records uniq rej" by simp
  then have inv: "distinct (map Hostname uniq)" "distinct rej"
    "Hostname ` set uniq \<union> set rej = Hostname ` set records"
    "set uniq \<subseteq> set records" "\<forall>u\<in>set uniq. agree records u"
    "\<forall>h\<in>set rej. \<exists>r\<in>set records. Hostname r = h \<and> \<not> agree records r"
    by (simp_all add: loopInv_def)
  show "distinct (map Hostname uniq)" "distinct rej" "set uniq \<subseteq> set records"
    by (rule inv)+
  have agree_cons: "agree records r \<longleftrightarrow> hostnameConsistent records (Hostname r)"
    if "r \<in> set records" for r
  proof
    assume a: "agree records r"
    show "hostnameConsistent records (Hostname r)"
      unfolding hostnameConsistent_def
    proof (intro ballI impI)
      fix x y assume "x \<in> set records" "y \<in> set records"
        "Hostname x = Hostname r \<and> Hostname y = Hostname r"
      with a have "Target x = Target r" "Target y = Target r" by (simp_all add: agree_def)
      then show "Target x = Target y" by simp
    qed
  next
    assume c: "hostnameConsistent records (Hostname r)"
    show "agree records r"
      unfolding agree_def
    proof (intro ballI impI)
      fix x assume "x \<in> set records" "Hostname x = Hostname r"
      with c that show "Target x = Target r"
        unfolding hostnameConsistent_def by blast
    qed
  qed
  have u: "hostnameConsistent records h" if "h \<in> Hostname ` set uniq" for h
  proof -
    from that obtain x where x: "x \<in> set uniq" "h = Hostname x" by blast
    with inv(4,5) have "x \<in> set records" "agree records x" by auto
    with agree_cons x(2) show ?thesis by simp
  qed
  have rj: "\<not> hostnameConsistent records h" if "h \<in> set rej" for h
  proof -
    from that inv(6) obtain x where "x \<in> set records" "Hostname x = h" "\<not> agree records x"
      by blast
    with agree_cons show ?thesis by auto
  qed
  show "Hostname ` set uniq = {h \<in> Hostname ` set records. hostnameConsistent records h}"
  proof (intro set_eqI iffI)
    fix h assume "h \<in> Hostname ` set uniq"
    with u inv(3) show "h \<in> {h \<in> Hostname ` set records. hostnameConsistent records h}" by blast
  next
    fix h assume "h \<in> {h \<in> Hostname ` set records. hostnameConsistent records h}"
    then have "h \<in> Hostname ` set uniq \<union> set rej" "hostnameConsistent records h"
      using inv(3) by simp_all
    with rj show "h \<in> Hostname ` set uniq" by blast
  qed
  show "set rej = {h \<in> Hostname ` set records. \<not> hostnameConsistent records h}"
  proof (intro set_eqI iffI)
    fix h assume "h \<in> set rej"
    with rj inv(3) show "h \<in> {h \<in> Hostname ` set records. \<not> hostnameConsistent records h}" by blast
  next
    fix h assume "h \<in> {h \<in> Hostname ` set records. \<not> hostnameConsistent records h}"
    then have "h \<in> Hostname ` set uniq \<union> set rej" "\<not> hostnameConsistent records h"
      using inv(3) by simp_all
    with u show "h \<in> set rej" by blast
  qed
qed


text \<open>
  Claim C1, as amended. For every batch, \<open>uniqueRecords\<close> keeps records of the batch
  only, and keeps exactly one record with a given hostname iff the hostname occurs in the
  batch and all records of the batch with that hostname have the same target; otherwise it
  keeps none with that hostname. No record whose hostname occurs with differing targets has
  its hostname among the survivors. The counter \<open>metricUpdatesRejected\<close> grows by the
  number of hostnames that occur with differing targets (one per conflicting hostname, not
  one per conflicting record).
\<close>

theorem uniqueRecords_dedup:
  assumes "uniqueRecords records m = (pruned, m')"
  shows "set pruned \<subseteq> set records
       \<and> (\<forall>h. length (filter (\<lambda>r. Hostname r = h) pruned) =
              (if h \<in> Hostname ` set records \<and> hostnameConsistent records h then 1 else 0))
       \<and> (\<forall>r\<in>set records. \<not> hostnameConsistent records (Hostname r) \<longrightarrow>
              Hostname r \<notin> Hostname ` set pruned)
       \<and> m' = m + card {h \<in> Hostname ` set records. \<not> hostnameConsistent records h}"
proof -
  obtain uniq rej where loop: "uniqueRecords_loop records 0 records [] [] = (uniq, rej)"
    by (cases "uniqueRecords_loop records 0 records [] []")
  from assms loop have res: "pruned = uniq" "m' = m + length rej"
    by (auto simp: uniqueRecords_def)
  note fin = uniqueRecords_loop_final [OF loop]
  have sub: "set pruned \<subseteq> set records" using fin(3) res(1) by simp
  have cnt: "length (filter (\<lambda>r. Hostname r = h) pruned) =
      (if h \<in> Hostname ` set records \<and> hostnameConsistent records h then 1 else 0)" for h
  proof -
    have "length (filter (\<lambda>r. Hostname r = h) uniq) = (if h \<in> Hostname ` set uniq then 1 else 0)"
      using count_by_key [OF fin(1)] .
    moreover have "h \<in> Hostname ` set uniq \<longleftrightarrow>
        h \<in> Hostname ` set records \<and> hostnameConsistent records h"
      unfolding fin(4) by simp
    ultimately show ?thesis using res(1) by simp
  qed
  have none: "Hostname r \<notin> Hostname ` set pruned"
    if "r \<in> set records" "\<not> hostnameConsistent records (Hostname r)" for r
    using that unfolding res(1) fin(4) by simp
  have "length rej = card (set rej)" using fin(2) by (simp add: distinct_card)
  then have m: "m' = m + card {h \<in> Hostname ` set records. \<not> hostnameConsistent records h}"
    using res(2) fin(5) by simp
  from sub cnt none m show ?thesis by blast
qed

theorem uniqueRecords_dedup_witness:
  "uniqueRecords
     [\<lparr>Hostname = ''a.example.com'', Target = ''public''\<rparr>,
      \<lparr>Hostname = ''shared.example.com'', Target = ''public''\<rparr>,
      \<lparr>Hostname = ''shared.example.com'', Target = ''private''\<rparr>,
      \<lparr>Hostname = ''a.example.com'', Target = ''public''\<rparr>] 5
   = ([\<lparr>Hostname = ''a.example.com'', Target = ''public''\<rparr>], 6)
  \<and> 6 = 5 + card {h \<in> Hostname ` set
     [\<lparr>Hostname = ''a.example.com'', Target = ''public''\<rparr>,
      \<lparr>Hostname = ''shared.example.com'', Target = ''public''\<rparr>,
      \<lparr>Hostname = ''shared.example.com'', Target = ''private''\<rparr>,
      \<lparr>Hostname = ''a.example.com'', Target = ''public''\<rparr>]. \<not> hostnameConsistent
     [\<lparr>Hostname = ''a.example.com'', Target = ''public''\<rparr>,
      \<lparr>Hostname = ''shared.example.com'', Target = ''public''\<rparr>,
      \<lparr>Hostname = ''shared.example.com'', Target = ''private''\<rparr>,
      \<lparr>Hostname = ''a.example.com'', Target = ''public''\<rparr>] h}"
proof -
  have run: "uniqueRecords
     [\<lparr>Hostname = ''a.example.com'', Target = ''public''\<rparr>,
      \<lparr>Hostname = ''shared.example.com'', Target = ''public''\<rparr>,
      \<lparr>Hostname = ''shared.example.com'', Target = ''private''\<rparr>,
      \<lparr>Hostname = ''a.example.com'', Target = ''public''\<rparr>] 5
   = ([\<lparr>Hostname = ''a.example.com'', Target = ''public''\<rparr>], 6)"
    by (simp add: uniqueRecords_def)
  from uniqueRecords_dedup [OF run] run show ?thesis by blast
qed

text \<open>
  Claim C1 as stated fails on its own example: two records that share one hostname with
  differing targets are both dropped, and the counter grows by one, not by two.
\<close>

theorem uniqueRecords_conflict_counts_hostnames:
  "fst (uniqueRecords
     [\<lparr>Hostname = ''shared.example.com'', Target = ''public''\<rparr>,
      \<lparr>Hostname = ''shared.example.com'', Target = ''private''\<rparr>] 0) = []
   \<and> snd (uniqueRecords
     [\<lparr>Hostname = ''shared.example.com'', Target = ''public''\<rparr>,
      \<lparr>Hostname = ''shared.example.com'', Target = ''private''\<rparr>] 0) = 1
   \<and> snd (uniqueRecords
     [\<lparr>Hostname = ''shared.example.com'', Target = ''public''\<rparr>,
      \<lparr>Hostname = ''shared.example.com'', Target = ''private''\<rparr>] 0) \<noteq> 0 + 2"
  by (simp add: uniqueRecords_def)


section \<open>Properties of the resolver\<close>

lemma resolveCname_loop_unanswered:
  "\<forall>n\<in>set nss. \<not> answered exch n \<Longrightarrow>
   resolveCname_loop exch nss tgt err =
     (nss, Inr (tgt, if nss = [] then err else Some (failure exch (last nss))))"
proof (induction nss arbitrary: err)
  case Nil
  then show ?case by simp
next
  case (Cons n nss)
  then have IH: "\<And>e. resolveCname_loop exch nss tgt e =
     (nss, Inr (tgt, if nss = [] then e else Some (failure exch (last nss))))"
    by simp
  from Cons.prems have na: "\<not> answered exch n" by simp
  show ?case
  proof (cases "exch n")
    case (Inl e)
    then show ?thesis by (simp add: IH failure_def)
  next
    case (Inr answer)
    with na have "answer = []" by (simp add: answered_def)
    with Inr show ?thesis by (simp add: IH failure_def)
  qed
qed

lemma resolveCname_loop_answered:
  "\<forall>n\<in>set pre. \<not> answered exch n \<Longrightarrow> exch ns = Inr (a # others) \<Longrightarrow>
   resolveCname_loop exch (pre @ ns # post) tgt err =
     (pre @ [ns], case a of CNAME t \<Rightarrow> Inr (t, None) | OtherRR \<Rightarrow> Inl TypeAssertionPanic)"
proof (induction pre arbitrary: err)
  case Nil
  then show ?case by (simp split: rr.splits)
next
  case (Cons n pre)
  then have IH: "\<And>e. resolveCname_loop exch (pre @ ns # post) tgt e =
     (pre @ [ns], case a of CNAME t \<Rightarrow> Inr (t, None) | OtherRR \<Rightarrow> Inl TypeAssertionPanic)"
    by simp
  from Cons.prems have na: "\<not> answered exch n" by simp
  show ?case
  proof (cases "exch n")
    case (Inl e)
    then show ?thesis by (simp add: IH)
  next
    case (Inr answer)
    with na have "answer = []" by (simp add: answered_def)
    with Inr show ?thesis by (simp add: IH)
  qed
qed

text \<open>
  What \<open>resolveCname\<close> does on a non-empty list of nameservers as long as the first
  record of the first answer is a CNAME. The servers are queried in order. A server
  that fails with a transport error or returns no answer record is passed over and the
  next one is tried; when no server gives an answer record, all of them have been queried,
  the target is empty and the error is the one of the last server (its transport error, or
  the empty-answer error). The first server that returns an answer record whose first
  record is a CNAME yields that record's target with no error, and no later server is
  queried.
\<close>

lemma resolveCname_in_order:
  assumes "nameservers \<noteq> []"
  shows "((\<forall>n\<in>set nameservers. \<not> answered (dnsClient_Exchange rt name) n) \<longrightarrow>
            resolveCname rt name nameservers
              = Inr ([], Some (failure (dnsClient_Exchange rt name) (last nameservers)))
            \<and> resolveCname_queries rt name nameservers = nameservers)
       \<and> (\<forall>pre ns post t others.
            nameservers = pre @ ns # post
            \<and> (\<forall>n\<in>set pre. \<not> answered (dnsClient_Exchange rt name) n)
            \<and> dnsClient_Exchange rt name ns = Inr (CNAME t # others) \<longrightarrow>
            resolveCname rt name nameservers = Inr (t, None)
            \<and> resolveCname_queries rt name nameservers = pre @ [ns])"
proof (intro conjI impI allI)
  assume "\<forall>n\<in>set nameservers. \<not> answered (dnsClient_Exchange rt name) n"
  from resolveCname_loop_unanswered [OF this, of "[]" None] assms
  show "resolveCname rt name nameservers
          = Inr ([], Some (failure (dnsClient_Exchange rt name) (last nameservers)))"
    and "resolveCname_queries rt name nameservers = nameservers"
    by (simp_all add: resolveCname_def resolveCname_queries_def)
next
  fix pre ns post t others
  assume a: "nameservers = pre @ ns # post
            \<and> (\<forall>n\<in>set pre. \<not> answered (dnsClient_Exchange rt name) n)
            \<and> dnsClient_Exchange rt name ns = Inr (CNAME t # others)"
  then have "resolveCname_loop (dnsClient_Exchange rt name) (pre @ ns # post) [] None
      = (pre @ [ns], Inr (t, None))"
    using resolveCname_loop_answered [of pre "dnsClient_Exchange rt name" ns "CNAME t" others post "[]" None]
    by simp
  with a show "resolveCname rt name nameservers = Inr (t, None)"
    and "resolveCname_queries rt name nameservers = pre @ [ns]"
    by (simp_all add: resolveCname_def resolveCname_queries_def)
qed

lemma resolveCname_in_order_example:
  "resolveCname exampleRuntime ''foo.example.com.'' [''ns1:53'', ''ns2:53'', ''ns3:53'', ''ns4:53'']
     = Inr (''public.example.net.'', None)
   \<and> resolveCname_queries exampleRuntime ''foo.example.com.''
        [''ns1:53'', ''ns2:53'', ''ns3:53'', ''ns4:53''] = [''ns1:53'', ''ns2:53'', ''ns3:53'']"
proof -
  have ne: "[''ns1:53'', ''ns2:53'', ''ns3:53'', ''ns4:53''] \<noteq> []" by simp
  have split: "[''ns1:53'', ''ns2:53'', ''ns3:53'', ''ns4:53'']
      = [''ns1:53'', ''ns2:53''] @ ''ns3:53'' # [''ns4:53'']" by simp
  have un: "\<forall>n\<in>set [''ns1:53'', ''ns2:53''].
      \<not> answered (dnsClient_Exchange exampleRuntime ''foo.example.com.'') n"
    by (simp add: answered_def exampleRuntime_def exampleExchange_def)
  have ans: "dnsClient_Exchange exampleRuntime ''foo.example.com.'' ''ns3:53''
      = Inr (CNAME ''public.example.net.'' # [])"
    by (simp add: exampleRuntime_def exampleExchange_def)
  note found = resolveCname_in_order [OF ne, of exampleRuntime "''foo.example.com.''",
      THEN conjunct2, rule_format]
  from found [of "[''ns1:53'', ''ns2:53'']" "''ns3:53''" "[''ns4:53'']"
      "''public.example.net.''" "[]", OF conjI [OF split conjI [OF un ans]]]
  show ?thesis by simp
qed

text \<open>
  Claim C8 asks that the first server returning at least one answer yield a CNAME target
  with no error (the specification: the first CNAME target found). The code takes the
  first answer record and asserts its type without a check: where the first server that
  answers returns a record of another type first and a CNAME second, \<open>resolveCname\<close>
  returns neither target nor error but panics. The servers before it were queried in order
  and passed over, as the claim says.
\<close>

theorem resolveCname_first_record_not_cname:
  "dnsClient_Exchange exampleRuntime ''odd.example.com.'' ''ns3:53''
     = Inr [OtherRR, CNAME ''public.example.net.'']
   \<and> resolveCname_queries exampleRuntime ''odd.example.com.''
        (ListNameservers (zone exampleRegistrator)) = [''ns1:53'', ''ns2:53'', ''ns3:53'']
   \<and> resolveCname exampleRuntime ''odd.example.com.''
        (ListNameservers (zone exampleRegistrator)) = Inl TypeAssertionPanic"
  by code_simp

text \<open>
  Claim C10. The type assertion on the first answer record is unchecked: when the first
  server that returns an answer record returns one whose first record is not a CNAME,
  \<open>resolveCname\<close> panics; it returns neither a target nor an error.
\<close>

theorem resolveCname_type_assertion_panics:
  assumes "\<forall>n\<in>set pre. \<not> answered (dnsClient_Exchange rt name) n"
    and "dnsClient_Exchange rt name ns = Inr (OtherRR # others)"
  shows "resolveCname rt name (pre @ ns # post) = Inl TypeAssertionPanic"
  using resolveCname_loop_answered [OF assms, of post "[]" None]
  by (simp add: resolveCname_def)

theorem resolveCname_type_assertion_panics_witness:
  "resolveCname exampleRuntime ''odd.example.com.'' [''ns1:53'', ''ns2:53'', ''ns3:53'', ''ns4:53'']
     = Inl TypeAssertionPanic"
proof -
  have un: "\<forall>n\<in>set [''ns1:53'', ''ns2:53''].
      \<not> answered (dnsClient_Exchange exampleRuntime ''odd.example.com.'') n"
    by (simp add: answered_def exampleRuntime_def exampleExchange_def)
  have ans: "dnsClient_Exchange exampleRuntime ''odd.example.com.'' ''ns3:53''
      = Inr (OtherRR # [CNAME ''public.example.net.''])"
    by (simp add: exampleRuntime_def exampleExchange_def)
  from resolveCname_type_assertion_panics [OF un ans, of "[''ns4:53'']"]
  show ?thesis by simp
qed


section \<open>The pattern of the scope check\<close>

lemma literalChar_simps:
  "literalChar c \<Longrightarrow> c \<noteq> CHR 0x5C \<and> c \<noteq> CHR ''['' \<and> c \<noteq> CHR ''+'' \<and> c \<noteq> CHR ''.''"
  by (auto simp: literalChar_def metaChars_def)

lemma bs_not_plus: "CHR 0x5C \<noteq> CHR ''+''" "CHR 0x5C \<noteq> CHR ''[''"
  by simp_all

lemma strings_Replace_Nil_iff: "strings_Replace z (CHR ''.'') [CHR 0x5C, CHR ''.''] = [] \<longleftrightarrow> z = []"
  by (cases z) auto

lemma strings_Replace_no_plus:
  "zoneChars z \<Longrightarrow> strings_Replace z (CHR ''.'') [CHR 0x5C, CHR ''.''] \<noteq> CHR ''+'' # rest"
  by (cases z) (auto simp: zoneChars_def dest: literalChar_simps)

lemma parseItems_Nil: "parseItems [] = Some []"
  by (subst parseItems.simps) simp

lemma parseItems_step:
  assumes "parseAtom s = Some (a, r)" and "\<And>rest. r \<noteq> CHR ''+'' # rest"
  shows "parseItems s = map_option ((#) (Once a)) (parseItems r)"
proof -
  from assms(1) have ne: "s \<noteq> []" by auto
  have unfold: "parseItems s =
      (case r of [] \<Rightarrow> Some [Once a]
       | p # r' \<Rightarrow> if p = CHR ''+'' then map_option ((#) (OneOrMore a)) (parseItems r')
                   else map_option ((#) (Once a)) (parseItems r))"
    by (subst parseItems.simps) (simp add: ne assms(1))
  show ?thesis
  proof (cases r)
    case Nil
    with unfold show ?thesis by (simp add: parseItems_Nil)
  next
    case (Cons p r')
    with assms(2) [of r'] have "p \<noteq> CHR ''+''" by simp
    with unfold Cons show ?thesis by simp
  qed
qed

lemma parseItems_literal:
  "zoneChars z \<Longrightarrow>
   parseItems (strings_Replace z (CHR ''.'') [CHR 0x5C, CHR ''.'']) = Some (map (\<lambda>c. Once (Lit c)) z)"
proof (induction z)
  case Nil
  then show ?case by (simp add: parseItems_Nil)
next
  case (Cons c z)
  then have zc: "zoneChars z" and c: "c = CHR ''.'' \<or> literalChar c"
    by (simp_all add: zoneChars_def)
  let ?R = "strings_Replace z (CHR ''.'') [CHR 0x5C, CHR ''.'']"
  have np: "\<And>rest. ?R \<noteq> CHR ''+'' # rest" using strings_Replace_no_plus [OF zc] .
  have atom: "parseAtom (strings_Replace (c # z) (CHR ''.'') [CHR 0x5C, CHR ''.'']) = Some (Lit c, ?R)"
    using c by (auto dest: literalChar_simps)
  show ?case
    using parseItems_step [OF atom np] Cons.IH [OF zc] by simp
qed

lemma parseItems_pattern:
  assumes "zoneChars z"
  shows "parseItems (''[^.]+'' @ [CHR 0x5C, CHR ''.''] @ strings_Replace z (CHR ''.'') [CHR 0x5C, CHR ''.''])
     = Some (OneOrMore (NotChar (CHR ''.'')) # Once (Lit (CHR ''.'')) # map (\<lambda>c. Once (Lit c)) z)"
proof -
  let ?R = "strings_Replace z (CHR ''.'') [CHR 0x5C, CHR ''.'']"
  have np: "\<And>rest. ?R \<noteq> CHR ''+'' # rest" using strings_Replace_no_plus [OF assms] .
  have dot: "parseItems ([CHR 0x5C, CHR ''.''] @ ?R) = Some (Once (Lit (CHR ''.'')) # map (\<lambda>c. Once (Lit c)) z)"
    using parseItems_step [of "[CHR 0x5C, CHR ''.''] @ ?R" "Lit (CHR ''.'')" ?R] np
      parseItems_literal [OF assms] by simp
  have "parseItems (''[^.]+'' @ [CHR 0x5C, CHR ''.''] @ ?R)
      = map_option ((#) (OneOrMore (NotChar (CHR ''.'')))) (parseItems ([CHR 0x5C, CHR ''.''] @ ?R))"
    by (subst parseItems.simps) simp
  with dot show ?thesis by simp
qed

lemma matchItems_literal: "matchItems (map (\<lambda>c. Once (Lit c)) z) s \<longleftrightarrow> s = z"
proof (induction z arbitrary: s)
  case Nil
  then show ?case by simp
next
  case (Cons c z)
  then show ?case by (cases s) auto
qed

lemma matchItems_Once_Lit:
  "matchItems (Once (Lit d) # its) s \<longleftrightarrow> (\<exists>s'. s = d # s' \<and> matchItems its s')"
  by (cases s) auto

lemma matchItems_OneOrMore:
  "matchItems (OneOrMore a # its) s \<longleftrightarrow>
     (\<exists>l s'. l \<noteq> [] \<and> (\<forall>c\<in>set l. accepts a c) \<and> s = l @ s' \<and> matchItems its s')"
proof (induction s)
  case Nil
  then show ?case by simp
next
  case (Cons c s)
  show ?case
  proof
    assume "matchItems (OneOrMore a # its) (c # s)"
    then have acc: "accepts a c" and alt: "matchItems its s \<or> matchItems (OneOrMore a # its) s"
      by simp_all
    from alt show "\<exists>l s'. l \<noteq> [] \<and> (\<forall>c\<in>set l. accepts a c) \<and> c # s = l @ s' \<and> matchItems its s'"
    proof
      assume "matchItems its s"
      with acc have "[c] \<noteq> [] \<and> (\<forall>x\<in>set [c]. accepts a x) \<and> c # s = [c] @ s \<and> matchItems its s"
        by simp
      then show ?thesis by blast
    next
      assume "matchItems (OneOrMore a # its) s"
      with Cons.IH obtain l s' where l: "l \<noteq> []" "\<forall>c\<in>set l. accepts a c" "s = l @ s'" "matchItems its s'"
        by blast
      with acc have "c # l \<noteq> [] \<and> (\<forall>x\<in>set (c # l). accepts a x) \<and> c # s = (c # l) @ s' \<and> matchItems its s'"
        by simp
      then show ?thesis by blast
    qed
  next
    assume "\<exists>l s'. l \<noteq> [] \<and> (\<forall>c\<in>set l. accepts a c) \<and> c # s = l @ s' \<and> matchItems its s'"
    then obtain l s' where l: "l \<noteq> []" "\<forall>c\<in>set l. accepts a c" "c # s = l @ s'" "matchItems its s'"
      by blast
    from l(1) obtain x l' where xl: "l = x # l'" by (cases l) auto
    with l(3) have eq: "x = c" "s = l' @ s'" by simp_all
    from xl l(2) eq have acc: "accepts a c" "\<forall>c\<in>set l'. accepts a c" by simp_all
    show "matchItems (OneOrMore a # its) (c # s)"
    proof (cases "l' = []")
      case True
      with eq l(4) acc show ?thesis by simp
    next
      case False
      with acc(2) eq(2) l(4) have "matchItems (OneOrMore a # its) s"
        using Cons.IH by blast
      with acc show ?thesis by simp
    qed
  qed
qed

lemma matchItems_scope:
  "matchItems (OneOrMore (NotChar (CHR ''.'')) # Once (Lit (CHR ''.'')) # map (\<lambda>c. Once (Lit c)) z) s
   \<longleftrightarrow> (\<exists>l. l \<noteq> [] \<and> CHR ''.'' \<notin> set l \<and> s = l @ ''.'' @ z)"
  unfolding matchItems_OneOrMore matchItems_Once_Lit matchItems_literal
  by auto

lemma regexp_MatchString_scope:
  assumes "zoneChars z"
  shows "regexp_MatchString ext
           (''^[^.]+'' @ [CHR 0x5C, CHR ''.''] @ strings_Replace z (CHR ''.'') [CHR 0x5C, CHR ''.''] @ ''$'') s
         = Inr (\<exists>l. l \<noteq> [] \<and> CHR ''.'' \<notin> set l \<and> s = l @ ''.'' @ z)"
proof -
  let ?R = "strings_Replace z (CHR ''.'') [CHR 0x5C, CHR ''.'']"
  let ?body = "''[^.]+'' @ [CHR 0x5C, CHR ''.''] @ ?R @ ''$''"
  have b: "butlast ?body = ''[^.]+'' @ [CHR 0x5C, CHR ''.''] @ ?R"
    by (simp add: butlast_append)
  have l: "last ?body = CHR ''$''" by simp
  have pat: "''^[^.]+'' @ [CHR 0x5C, CHR ''.''] @ ?R @ ''$'' = CHR ''^'' # ?body" by simp
  show ?thesis
    unfolding regexp_MatchString_def pat
    using parseItems_pattern [OF assms] matchItems_scope [of z s] b l
    by simp
qed

lemma canHandleRecord_iff:
  assumes "zoneChars (strings_Trim (Domain_zone (zone r)) ''.'')"
  shows "canHandleRecord rt r record \<longleftrightarrow>
     (\<exists>label. label \<noteq> [] \<and> CHR ''.'' \<notin> set label
        \<and> strings_Trim record ''.'' = label @ ''.'' @ strings_Trim (Domain_zone (zone r)) ''.'')"
  using regexp_MatchString_scope [OF assms, of "regexp_ext rt" "strings_Trim record ''.''"]
  by (simp add: canHandleRecord_def Let_def)


section \<open>Properties of the prune stage\<close>

lemma pruneBatch_loop_out_of_scope:
  "\<not> canHandleRecord rt r (Hostname u) \<Longrightarrow>
   pruneBatch_loop rt r action (u # us) pruned m = pruneBatch_loop rt r action us pruned (Suc m)"
  by simp

lemma pruneBatch_loop_panic_step:
  "canHandleRecord rt r (Hostname u) \<Longrightarrow> liveQuery rt r u = Inl p \<Longrightarrow>
   pruneBatch_loop rt r action (u # us) pruned m = Inl p"
  by (simp add: liveQuery_def)

lemma pruneBatch_loop_step:
  assumes "canHandleRecord rt r (Hostname u)" and "liveQuery rt r u = Inr (t, err)"
  shows "pruneBatch_loop rt r action (u # us) pruned m =
     pruneBatch_loop rt r action us (if keepRecord rt r action u then pruned @ [u] else pruned) m"
proof -
  have q: "resolveCname rt (strings_Trim (Hostname u) ''.'' @ ''.'') (ListNameservers (zone r))
      = Inr (t, err)" using assms(2) by (simp add: liveQuery_def)
  have du: "ChangeActionDelete \<noteq> ChangeActionUpsert"
    by (simp add: ChangeActionDelete_def ChangeActionUpsert_def)
  consider (del) "action = ChangeActionDelete" | (ups) "action = ChangeActionUpsert"
    | (other) "action \<noteq> ChangeActionDelete" "action \<noteq> ChangeActionUpsert" by blast
  then show ?thesis
  proof cases
    case del
    have k: "keepRecord rt r action u \<longleftrightarrow>
        HostnameOwners r (Hostname u) = [] \<and> err \<noteq> Some errDNSEmptyAnswer"
      using assms del by (simp add: keepRecord_def)
    show ?thesis unfolding k using assms(1) del by (simp add: q)
  next
    case ups
    have k: "keepRecord rt r action u \<longleftrightarrow> err \<noteq> None \<or> strings_Trim t ''.'' \<noteq> Target u"
      using assms ups du by (simp add: keepRecord_def)
    show ?thesis unfolding k using assms(1) ups du by (simp add: q)
  next
    case other
    have k: "\<not> keepRecord rt r action u"
      using assms other by (simp add: keepRecord_def)
    show ?thesis using k assms(1) other by (simp add: q)
  qed
qed

lemma pruneBatch_loop_eq:
  "\<forall>u\<in>set records. \<not> queryPanics rt r u \<Longrightarrow>
   pruneBatch_loop rt r action records pruned m =
     Inr (pruned @ filter (keepRecord rt r action) records,
          m + length (filter (\<lambda>u. \<not> canHandleRecord rt r (Hostname u)) records))"
proof (induction records arbitrary: pruned m)
  case Nil
  then show ?case by simp
next
  case (Cons u us)
  then have IH: "\<And>pruned m. pruneBatch_loop rt r action us pruned m =
     Inr (pruned @ filter (keepRecord rt r action) us,
          m + length (filter (\<lambda>u. \<not> canHandleRecord rt r (Hostname u)) us))"
    by simp
  from Cons.prems have np: "\<not> queryPanics rt r u" by simp
  show ?case
  proof (cases "canHandleRecord rt r (Hostname u)")
    case False
    then have "\<not> keepRecord rt r action u" by (simp add: keepRecord_def)
    with False show ?thesis
      unfolding pruneBatch_loop_out_of_scope [OF False] IH by simp
  next
    case True
    with np obtain t err where q: "liveQuery rt r u = Inr (t, err)"
      by (cases "liveQuery rt r u") (auto simp: queryPanics_def)
    show ?thesis
      unfolding pruneBatch_loop_step [OF True q] IH using True by simp
  qed
qed

lemma pruneBatch_loop_panics:
  "u \<in> set records \<Longrightarrow> queryPanics rt r u \<Longrightarrow>
   \<exists>p. pruneBatch_loop rt r action records pruned m = Inl p"
proof (induction records arbitrary: pruned m)
  case Nil
  then show ?case by simp
next
  case (Cons v vs)
  show ?case
  proof (cases "queryPanics rt r v")
    case True
    then obtain p where "canHandleRecord rt r (Hostname v)" "liveQuery rt r v = Inl p"
      by (cases "liveQuery rt r v") (auto simp: queryPanics_def)
    from pruneBatch_loop_panic_step [OF this] show ?thesis by blast
  next
    case False
    with Cons.prems have "u \<in> set vs" by auto
    from Cons.IH [OF this Cons.prems(2)]
    have IH: "\<And>pruned m. \<exists>p. pruneBatch_loop rt r action vs pruned m = Inl p" by simp
    show ?thesis
    proof (cases "canHandleRecord rt r (Hostname v)")
      case nc: False
      show ?thesis unfolding pruneBatch_loop_out_of_scope [OF nc] using IH by simp
    next
      case True
      with False obtain t err where q: "liveQuery rt r v = Inr (t, err)"
        by (cases "liveQuery rt r v") (auto simp: queryPanics_def)
      show ?thesis unfolding pruneBatch_loop_step [OF True q] using IH by simp
    qed
  qed
qed

lemma pruneBatch_loop_no_panic:
  assumes "pruneBatch_loop rt r action records pruned m = Inr res"
  shows "\<forall>u\<in>set records. \<not> queryPanics rt r u"
proof
  fix u assume "u \<in> set records"
  show "\<not> queryPanics rt r u"
  proof
    assume "queryPanics rt r u"
    from pruneBatch_loop_panics [OF \<open>u \<in> set records\<close> this, of action pruned m] assms
    show False by simp
  qed
qed


lemma uniqueRecords_member:
  assumes "uniqueRecords kept m = (pruned, m')"
  shows "u \<in> set pruned \<longleftrightarrow> u \<in> set kept \<and> hostnameConsistent kept (Hostname u)"
proof -
  obtain uniq rej where loop: "uniqueRecords_loop kept 0 kept [] [] = (uniq, rej)"
    by (cases "uniqueRecords_loop kept 0 kept [] []")
  from assms loop have res: "pruned = uniq" by (auto simp: uniqueRecords_def)
  note fin = uniqueRecords_loop_final [OF loop]
  show ?thesis
  proof
    assume "u \<in> set pruned"
    then have "u \<in> set kept" "Hostname u \<in> Hostname ` set uniq"
      using fin(3) res by auto
    then show "u \<in> set kept \<and> hostnameConsistent kept (Hostname u)"
      unfolding fin(4) by simp
  next
    assume a: "u \<in> set kept \<and> hostnameConsistent kept (Hostname u)"
    then have "Hostname u \<in> Hostname ` set uniq" unfolding fin(4) by simp
    then obtain u' where u': "u' \<in> set uniq" "Hostname u' = Hostname u" by auto
    with fin(3) have "u' \<in> set kept" by auto
    with a u'(2) have "Target u' = Target u"
      unfolding hostnameConsistent_def by blast
    with u'(2) have "u' = u" by simp
    with u'(1) res show "u \<in> set pruned" by simp
  qed
qed

lemma pruneBatch_result:
  assumes "pruneBatch rt r action records m = Inr (pruned, m')"
  shows "\<forall>u\<in>set records. \<not> queryPanics rt r u"
    and "uniqueRecords (filter (keepRecord rt r action) records)
           (m + length (filter (\<lambda>u. \<not> canHandleRecord rt r (Hostname u)) records)) = (pruned, m')"
proof -
  from assms obtain res where loop: "pruneBatch_loop rt r action records [] m = Inr res"
    by (cases "pruneBatch_loop rt r action records [] m") (auto simp: pruneBatch_def)
  from pruneBatch_loop_no_panic [OF loop]
  show np: "\<forall>u\<in>set records. \<not> queryPanics rt r u" .
  from assms show "uniqueRecords (filter (keepRecord rt r action) records)
           (m + length (filter (\<lambda>u. \<not> canHandleRecord rt r (Hostname u)) records)) = (pruned, m')"
    unfolding pruneBatch_def pruneBatch_loop_eq [OF np] by simp
qed

lemma pruneBatch_member:
  assumes "pruneBatch rt r action records m = Inr (pruned, m')"
  shows "u \<in> set pruned \<longleftrightarrow>
     u \<in> set records \<and> keepRecord rt r action u
     \<and> (\<forall>v\<in>set records. Hostname v = Hostname u \<and> keepRecord rt r action v \<longrightarrow> Target v = Target u)"
proof -
  let ?kept = "filter (keepRecord rt r action) records"
  have mem: "u \<in> set pruned \<longleftrightarrow> u \<in> set ?kept \<and> hostnameConsistent ?kept (Hostname u)"
    using uniqueRecords_member [OF pruneBatch_result(2) [OF assms]] .
  have "hostnameConsistent ?kept (Hostname u) \<longleftrightarrow>
      (\<forall>v\<in>set records. Hostname v = Hostname u \<and> keepRecord rt r action v \<longrightarrow> Target v = Target u)"
    if u: "u \<in> set ?kept"
  proof
    assume c: "hostnameConsistent ?kept (Hostname u)"
    show "\<forall>v\<in>set records. Hostname v = Hostname u \<and> keepRecord rt r action v \<longrightarrow> Target v = Target u"
    proof (intro ballI impI)
      fix v assume "v \<in> set records" "Hostname v = Hostname u \<and> keepRecord rt r action v"
      then have "v \<in> set ?kept" "Hostname v = Hostname u" by simp_all
      with c u show "Target v = Target u" unfolding hostnameConsistent_def by blast
    qed
  next
    assume a: "\<forall>v\<in>set records. Hostname v = Hostname u \<and> keepRecord rt r action v \<longrightarrow> Target v = Target u"
    show "hostnameConsistent ?kept (Hostname u)"
      unfolding hostnameConsistent_def
    proof (intro ballI impI)
      fix x y assume "x \<in> set ?kept" "y \<in> set ?kept" "Hostname x = Hostname u \<and> Hostname y = Hostname u"
      with a have "Target x = Target u" "Target y = Target u" by simp_all
      then show "Target x = Target y" by simp
    qed
  qed
  with mem show ?thesis by auto
qed

lemma keepRecord_delete:
  "keepRecord rt r ChangeActionDelete u \<longleftrightarrow>
     canHandleRecord rt r (Hostname u) \<and> HostnameOwners r (Hostname u) = []
     \<and> (\<exists>t err. liveQuery rt r u = Inr (t, err) \<and> err \<noteq> Some errDNSEmptyAnswer)"
  by (cases "liveQuery rt r u") (auto simp: keepRecord_def)

lemma keepRecord_upsert:
  "keepRecord rt r ChangeActionUpsert u \<longleftrightarrow>
     canHandleRecord rt r (Hostname u)
     \<and> (\<exists>t err. liveQuery rt r u = Inr (t, err) \<and> (err \<noteq> None \<or> strings_Trim t ''.'' \<noteq> Target u))"
  by (cases "liveQuery rt r u")
     (auto simp: keepRecord_def ChangeActionDelete_def ChangeActionUpsert_def)

lemma liveQuery_cong: "Hostname v = Hostname u \<Longrightarrow> liveQuery rt r v = liveQuery rt r u"
  by (simp add: liveQuery_def)







text \<open>
  Claim C3, as amended. Let \<open>pruneBatch\<close> return for an UPSERT batch. A record of the
  batch whose hostname passes the scope check is in the returned batch (the one handed to
  \<open>UpsertCnames\<close>) iff the live query failed with any error or the resolved target,
  with its leading and trailing dots stripped, differs from the record's target, and every
  record of the batch with the same hostname that passes this same test has the same
  target (else the deduplication drops them all). A record whose resolved target, dots
  stripped, equals its target is not in the returned batch.
\<close>

theorem pruneBatch_upsert_policy:
  assumes "pruneBatch rt r ChangeActionUpsert records m = Inr (pruned, m')"
    and "u \<in> set records"
  shows "(canHandleRecord rt r (Hostname u) \<longrightarrow>
           (u \<in> set pruned \<longleftrightarrow>
              (\<exists>t err. liveQuery rt r u = Inr (t, err)
                 \<and> (err \<noteq> None \<or> strings_Trim t ''.'' \<noteq> Target u)
                 \<and> (\<forall>v\<in>set records.
                       Hostname v = Hostname u \<and> (err \<noteq> None \<or> strings_Trim t ''.'' \<noteq> Target v)
                       \<longrightarrow> Target v = Target u))))
       \<and> ((\<exists>t. liveQuery rt r u = Inr (t, None) \<and> strings_Trim t ''.'' = Target u)
            \<longrightarrow> u \<notin> set pruned)"
proof (intro conjI impI)
  note mem = pruneBatch_member [OF assms(1), of u]
  assume sc: "canHandleRecord rt r (Hostname u)"
  have same: "keepRecord rt r ChangeActionUpsert v \<longleftrightarrow> (err \<noteq> None \<or> strings_Trim t ''.'' \<noteq> Target v)"
    if "Hostname v = Hostname u" "liveQuery rt r u = Inr (t, err)" for v t err
    unfolding keepRecord_upsert using that sc liveQuery_cong [OF that(1), of rt r] by simp
  show "u \<in> set pruned \<longleftrightarrow>
      (\<exists>t err. liveQuery rt r u = Inr (t, err)
         \<and> (err \<noteq> None \<or> strings_Trim t ''.'' \<noteq> Target u)
         \<and> (\<forall>v\<in>set records.
               Hostname v = Hostname u \<and> (err \<noteq> None \<or> strings_Trim t ''.'' \<noteq> Target v)
               \<longrightarrow> Target v = Target u))"
    (is "?L \<longleftrightarrow> ?R")
  proof
    assume l: ?L
    note m = mem [THEN iffD1, OF l]
    from m have k: "keepRecord rt r ChangeActionUpsert u" by (elim conjE)
    from m have c: "\<forall>v\<in>set records. Hostname v = Hostname u \<and> keepRecord rt r ChangeActionUpsert v
                \<longrightarrow> Target v = Target u" by (elim conjE)
    from k obtain t err where q: "liveQuery rt r u = Inr (t, err)"
      and d: "err \<noteq> None \<or> strings_Trim t ''.'' \<noteq> Target u"
      unfolding keepRecord_upsert by blast
    have "\<forall>v\<in>set records.
        Hostname v = Hostname u \<and> (err \<noteq> None \<or> strings_Trim t ''.'' \<noteq> Target v)
        \<longrightarrow> Target v = Target u"
    proof (intro ballI impI)
      fix v assume v: "v \<in> set records"
        "Hostname v = Hostname u \<and> (err \<noteq> None \<or> strings_Trim t ''.'' \<noteq> Target v)"
      then have "keepRecord rt r ChangeActionUpsert v" using same [of v t err] q by blast
      with c v show "Target v = Target u" by blast
    qed
    with q d show ?R by blast
  next
    assume ?R
    then obtain t err where q: "liveQuery rt r u = Inr (t, err)"
      and d: "err \<noteq> None \<or> strings_Trim t ''.'' \<noteq> Target u"
      and c: "\<forall>v\<in>set records.
        Hostname v = Hostname u \<and> (err \<noteq> None \<or> strings_Trim t ''.'' \<noteq> Target v)
        \<longrightarrow> Target v = Target u" by blast
    have k: "keepRecord rt r ChangeActionUpsert u" using same [of u t err] q d by blast
    have "\<forall>v\<in>set records. Hostname v = Hostname u \<and> keepRecord rt r ChangeActionUpsert v
        \<longrightarrow> Target v = Target u"
    proof (intro ballI impI)
      fix v assume v: "v \<in> set records" "Hostname v = Hostname u \<and> keepRecord rt r ChangeActionUpsert v"
      then have "err \<noteq> None \<or> strings_Trim t ''.'' \<noteq> Target v" using same [of v t err] q by blast
      with c v show "Target v = Target u" by blast
    qed
    with assms(2) k show ?L by (intro mem [THEN iffD2] conjI)
  qed
next
  assume "\<exists>t. liveQuery rt r u = Inr (t, None) \<and> strings_Trim t ''.'' = Target u"
  then have "\<not> keepRecord rt r ChangeActionUpsert u"
    unfolding keepRecord_upsert by auto
  with pruneBatch_member [OF assms(1), of u] show "u \<notin> set pruned" by simp
qed

theorem pruneBatch_upsert_policy_witness:
  "pruneBatch exampleRuntime exampleRegistrator ChangeActionUpsert
     [\<lparr>Hostname = ''foo.example.com'', Target = ''public.example.net''\<rparr>,
      \<lparr>Hostname = ''bar.example.com'', Target = ''public.example.net''\<rparr>] 0
     = Inr ([\<lparr>Hostname = ''bar.example.com'', Target = ''public.example.net''\<rparr>], 0)
   \<and> canHandleRecord exampleRuntime exampleRegistrator ''bar.example.com''
   \<and> (\<lparr>Hostname = ''bar.example.com'', Target = ''public.example.net''\<rparr>
        \<in> set [\<lparr>Hostname = ''bar.example.com'', Target = ''public.example.net''\<rparr>]
      \<longleftrightarrow>
        (\<exists>t err. liveQuery exampleRuntime exampleRegistrator
                       \<lparr>Hostname = ''bar.example.com'', Target = ''public.example.net''\<rparr>
                     = Inr (t, err)
           \<and> (err \<noteq> None \<or> strings_Trim t ''.'' \<noteq> ''public.example.net'')
           \<and> (\<forall>v\<in>set [\<lparr>Hostname = ''foo.example.com'', Target = ''public.example.net''\<rparr>,
                        \<lparr>Hostname = ''bar.example.com'', Target = ''public.example.net''\<rparr>].
                 Hostname v = ''bar.example.com''
                 \<and> (err \<noteq> None \<or> strings_Trim t ''.'' \<noteq> Target v)
                 \<longrightarrow> Target v = ''public.example.net'')))"
proof -
  have run: "pruneBatch exampleRuntime exampleRegistrator ChangeActionUpsert
     [\<lparr>Hostname = ''foo.example.com'', Target = ''public.example.net''\<rparr>,
      \<lparr>Hostname = ''bar.example.com'', Target = ''public.example.net''\<rparr>] 0
     = Inr ([\<lparr>Hostname = ''bar.example.com'', Target = ''public.example.net''\<rparr>], 0)"
    by code_simp
  have mem: "\<lparr>Hostname = ''bar.example.com'', Target = ''public.example.net''\<rparr>
     \<in> set [\<lparr>Hostname = ''foo.example.com'', Target = ''public.example.net''\<rparr>,
      \<lparr>Hostname = ''bar.example.com'', Target = ''public.example.net''\<rparr>]"
    by simp
  have scope: "canHandleRecord exampleRuntime exampleRegistrator ''bar.example.com''"
    by code_simp
  from pruneBatch_upsert_policy [OF run mem, THEN conjunct1] scope run
  show ?thesis by simp
qed


text \<open>
  Claim C3 as stated fails: two UPSERT records for one hostname with differing targets
  whose live query fails both satisfy the stated condition, and neither is in the batch
  handed to the mutator.
\<close>

theorem pruneBatch_upsert_conflict_dropped:
  "pruneBatch exampleRuntime exampleRegistrator ChangeActionUpsert
     [\<lparr>Hostname = ''bar.example.com'', Target = ''public.example.net''\<rparr>,
      \<lparr>Hostname = ''bar.example.com'', Target = ''private.example.net''\<rparr>] 0
     = Inr ([], 1)
   \<and> resolveCname exampleRuntime ''bar.example.com.'' (ListNameservers (zone exampleRegistrator))
       = Inr ([], Some errDNSEmptyAnswer)"
  by code_simp

section \<open>Scope containment\<close>

lemma singleLabelBelow_iff:
  "singleLabelBelow name apex \<longleftrightarrow>
     (\<exists>label. label \<noteq> [] \<and> CHR ''.'' \<notin> set label \<and> name = label @ ''.'' @ apex)"
proof
  assume s: "singleLabelBelow name apex"
  let ?n = "length name - (length apex + 1)"
  from s have d: "drop ?n name = ''.'' @ apex" and len: "length apex + 1 < length name"
    and nd: "CHR ''.'' \<notin> set (take ?n name)"
    by (simp_all add: singleLabelBelow_def)
  have "name = take ?n name @ drop ?n name" by simp
  with d have "name = take ?n name @ ''.'' @ apex" by simp
  moreover from len have "take ?n name \<noteq> []" by auto
  ultimately have "take ?n name \<noteq> [] \<and> CHR ''.'' \<notin> set (take ?n name)
      \<and> name = take ?n name @ ''.'' @ apex" using nd by blast
  then show "\<exists>label. label \<noteq> [] \<and> CHR ''.'' \<notin> set label \<and> name = label @ ''.'' @ apex"
    by blast
next
  assume "\<exists>label. label \<noteq> [] \<and> CHR ''.'' \<notin> set label \<and> name = label @ ''.'' @ apex"
  then obtain label where l: "label \<noteq> []" "CHR ''.'' \<notin> set label" "name = label @ ''.'' @ apex"
    by blast
  then have n: "length name - (length apex + 1) = length label" by simp
  from l(1) have "0 < length label" by simp
  with l show "singleLabelBelow name apex"
    unfolding singleLabelBelow_def n by simp
qed

lemma applyBatch_calls:
  assumes "applyBatch rt r changes ms = Inr (ms', cs)" and "c \<in> set cs"
  shows "\<exists>pruned m'. pruneBatch rt r (Action (hd changes)) (map Record changes)
                       (metricUpdatesRejected ms) = Inr (pruned, m')
           \<and> pruned \<noteq> [] \<and> \<not> dryRun rt
           \<and> c = (if Action (hd changes) = ChangeActionDelete then CallDeleteCnames pruned
                   else CallUpsertCnames pruned)"
proof (cases changes)
  case Nil
  with assms show ?thesis by (simp add: applyBatch_def)
next
  case (Cons c0 rest)
  show ?thesis
  proof (cases "pruneBatch rt r (Action c0) (map Record changes) (metricUpdatesRejected ms)")
    case (Inl p)
    with assms Cons show ?thesis by (simp add: applyBatch_def)
  next
    case (Inr res)
    obtain pruned m' where res: "res = (pruned, m')" by (cases res)
    from assms Cons Inr res show ?thesis
      by (auto simp: applyBatch_def Let_def split: if_splits option.splits)
  qed
qed

lemma pruneBatch_in_scope:
  assumes "pruneBatch rt r action records m = Inr (pruned, m')" and "u \<in> set pruned"
  shows "canHandleRecord rt r (Hostname u)"
proof -
  from pruneBatch_member [OF assms(1), THEN iffD1, OF assms(2)]
  have "keepRecord rt r action u" by (elim conjE)
  then show ?thesis by (simp add: keepRecord_def)
qed

text \<open>
  Claim C5, as amended. Let the zone apex, its leading and trailing dots stripped, consist
  of dots and of characters that stand for themselves in a regular expression. Then
  \<open>canHandleRecord\<close> accepts a hostname iff the hostname, its leading and trailing dots
  stripped, is one non-empty label without a dot, a dot, and the stripped apex. Every
  record the scope check rejects adds one to \<open>metricUpdatesRejected\<close> in the loop of
  \<open>pruneBatch\<close>, no rejected record is among those the loop keeps, and every record of
  every mutator call made by \<open>applyBatch\<close> has a hostname the scope check accepts.
\<close>

theorem canHandleRecord_scope:
  assumes "zoneChars (strings_Trim (Domain_zone (zone r)) ''.'')"
  shows "(canHandleRecord rt r record \<longleftrightarrow>
            (\<exists>label. label \<noteq> [] \<and> CHR ''.'' \<notin> set label
               \<and> strings_Trim record ''.'' = label @ ''.'' @ strings_Trim (Domain_zone (zone r)) ''.''))
       \<and> (\<forall>action records m kept m1.
             pruneBatch_loop rt r action records [] m = Inr (kept, m1) \<longrightarrow>
             m1 = m + length (filter (\<lambda>u. \<not> canHandleRecord rt r (Hostname u)) records)
             \<and> (\<forall>u\<in>set kept. canHandleRecord rt r (Hostname u)))
       \<and> (\<forall>changes ms ms' cs.
             applyBatch rt r changes ms = Inr (ms', cs) \<longrightarrow>
             (\<forall>c\<in>set cs. \<forall>u\<in>set (mutatorRecords c). canHandleRecord rt r (Hostname u)))"
proof (intro conjI allI impI)
  show "canHandleRecord rt r record \<longleftrightarrow>
      (\<exists>label. label \<noteq> [] \<and> CHR ''.'' \<notin> set label
         \<and> strings_Trim record ''.'' = label @ ''.'' @ strings_Trim (Domain_zone (zone r)) ''.'')"
    using canHandleRecord_iff [OF assms] .
next
  fix action records m kept m1
  assume loop: "pruneBatch_loop rt r action records [] m = Inr (kept, m1)"
  note np = pruneBatch_loop_no_panic [OF loop]
  from loop have eq: "kept = filter (keepRecord rt r action) records"
    "m1 = m + length (filter (\<lambda>u. \<not> canHandleRecord rt r (Hostname u)) records)"
    unfolding pruneBatch_loop_eq [OF np] by simp_all
  show "m1 = m + length (filter (\<lambda>u. \<not> canHandleRecord rt r (Hostname u)) records)"
    by (rule eq(2))
  show "\<forall>u\<in>set kept. canHandleRecord rt r (Hostname u)"
    unfolding eq(1) by (simp add: keepRecord_def)
next
  fix changes ms ms' cs
  assume ab: "applyBatch rt r changes ms = Inr (ms', cs)"
  show "\<forall>c\<in>set cs. \<forall>u\<in>set (mutatorRecords c). canHandleRecord rt r (Hostname u)"
  proof (intro ballI)
    fix c u assume c: "c \<in> set cs" and u: "u \<in> set (mutatorRecords c)"
    from applyBatch_calls [OF ab c] obtain pruned m' where
      p: "pruneBatch rt r (Action (hd changes)) (map Record changes) (metricUpdatesRejected ms)
            = Inr (pruned, m')"
      and cc: "c = (if Action (hd changes) = ChangeActionDelete then CallDeleteCnames pruned
                   else CallUpsertCnames pruned)" by blast
    from cc u have "u \<in> set pruned" by (simp split: if_splits)
    from pruneBatch_in_scope [OF p this] show "canHandleRecord rt r (Hostname u)" .
  qed
qed

theorem canHandleRecord_scope_witness:
  "zoneChars (strings_Trim (Domain_zone (zone exampleRegistrator)) ''.'')
   \<and> canHandleRecord exampleRuntime exampleRegistrator ''test.example.com.''
   \<and> (\<exists>label. label \<noteq> [] \<and> CHR ''.'' \<notin> set label
         \<and> strings_Trim ''test.example.com.'' ''.''
            = label @ ''.'' @ strings_Trim (Domain_zone (zone exampleRegistrator)) ''.'')"
proof -
  have z: "zoneChars (strings_Trim (Domain_zone (zone exampleRegistrator)) ''.'')"
    by code_simp
  have c: "canHandleRecord exampleRuntime exampleRegistrator ''test.example.com.''"
    by code_simp
  from canHandleRecord_scope [OF z, of exampleRuntime "''test.example.com.''", THEN conjunct1] c z
  show ?thesis by blast
qed

text \<open>
  Claim C5 as stated fails: \<open>strings.Trim\<close> strips leading dots too, so a hostname
  with a leading dot is accepted although, with only its trailing dots stripped, it is not
  a single label below the apex.
\<close>

theorem canHandleRecord_leading_dot:
  "canHandleRecord exampleRuntime exampleRegistrator ''.test.example.com''
   \<and> \<not> singleLabelBelow (strings_TrimRight ''.test.example.com'' ''.'')
         (strings_TrimRight (Domain_zone (zone exampleRegistrator)) ''.'')"
  by code_simp

section \<open>Prune without nameservers\<close>

lemma liveQuery_no_nameservers:
  "ListNameservers (zone r) = [] \<Longrightarrow> liveQuery rt r u = Inr ([], None)"
  by (simp add: liveQuery_def resolveCname_def)

text \<open>
  Claim C9. With an empty nameserver list \<open>resolveCname\<close> queries no server and returns
  the empty target with no error. The prune loop then treats every name as resolving to
  the empty string: an UPSERT record in scope is kept iff its target is not empty, and a
  DELETE record in scope is kept iff no ingress claims its hostname.
\<close>

theorem resolveCname_no_nameservers:
  "resolveCname rt name [] = Inr ([], None)
   \<and> resolveCname_queries rt name [] = []
   \<and> (ListNameservers (zone r) = [] \<longrightarrow>
        pruneBatch_loop rt r ChangeActionUpsert records [] m =
          Inr (filter (\<lambda>u. canHandleRecord rt r (Hostname u) \<and> Target u \<noteq> []) records,
               m + length (filter (\<lambda>u. \<not> canHandleRecord rt r (Hostname u)) records))
        \<and> pruneBatch_loop rt r ChangeActionDelete records [] m =
          Inr (filter (\<lambda>u. canHandleRecord rt r (Hostname u)
                            \<and> HostnameOwners r (Hostname u) = []) records,
               m + length (filter (\<lambda>u. \<not> canHandleRecord rt r (Hostname u)) records)))"
proof (intro conjI impI)
  show "resolveCname rt name [] = Inr ([], None)" by (simp add: resolveCname_def)
  show "resolveCname_queries rt name [] = []" by (simp add: resolveCname_queries_def)
next
  assume ns: "ListNameservers (zone r) = []"
  have q: "\<And>u. liveQuery rt r u = Inr ([], None)"
    using liveQuery_no_nameservers [OF ns] .
  have np: "\<forall>u\<in>set records. \<not> queryPanics rt r u"
    by (simp add: queryPanics_def q)
  have trim: "strings_Trim [] ''.'' = []" by (simp add: strings_Trim_def)
  have ku: "keepRecord rt r ChangeActionUpsert =
      (\<lambda>u. canHandleRecord rt r (Hostname u) \<and> Target u \<noteq> [])"
    by (rule ext) (auto simp: keepRecord_upsert q trim)
  have kd: "keepRecord rt r ChangeActionDelete =
      (\<lambda>u. canHandleRecord rt r (Hostname u) \<and> HostnameOwners r (Hostname u) = [])"
    by (rule ext) (auto simp: keepRecord_delete q)
  show "pruneBatch_loop rt r ChangeActionUpsert records [] m =
          Inr (filter (\<lambda>u. canHandleRecord rt r (Hostname u) \<and> Target u \<noteq> []) records,
               m + length (filter (\<lambda>u. \<not> canHandleRecord rt r (Hostname u)) records))"
    unfolding pruneBatch_loop_eq [OF np] ku by simp
  show "pruneBatch_loop rt r ChangeActionDelete records [] m =
          Inr (filter (\<lambda>u. canHandleRecord rt r (Hostname u)
                            \<and> HostnameOwners r (Hostname u) = []) records,
               m + length (filter (\<lambda>u. \<not> canHandleRecord rt r (Hostname u)) records))"
    unfolding pruneBatch_loop_eq [OF np] kd by simp
qed

theorem resolveCname_no_nameservers_witness:
  "ListNameservers (zone (exampleRegistrator\<lparr>zone := (zone exampleRegistrator)\<lparr>ListNameservers := []\<rparr>\<rparr>)) = []
   \<and> pruneBatch_loop exampleRuntime
        (exampleRegistrator\<lparr>zone := (zone exampleRegistrator)\<lparr>ListNameservers := []\<rparr>\<rparr>)
        ChangeActionUpsert
        [\<lparr>Hostname = ''foo.example.com'', Target = ''public.example.net''\<rparr>,
         \<lparr>Hostname = ''claimed.example.com'', Target = ''public.example.net''\<rparr>] [] 0
      = Inr ([\<lparr>Hostname = ''foo.example.com'', Target = ''public.example.net''\<rparr>,
              \<lparr>Hostname = ''claimed.example.com'', Target = ''public.example.net''\<rparr>], 0)
   \<and> pruneBatch_loop exampleRuntime
        (exampleRegistrator\<lparr>zone := (zone exampleRegistrator)\<lparr>ListNameservers := []\<rparr>\<rparr>)
        ChangeActionDelete
        [\<lparr>Hostname = ''foo.example.com'', Target = ''public.example.net''\<rparr>,
         \<lparr>Hostname = ''claimed.example.com'', Target = ''public.example.net''\<rparr>] [] 0
      = Inr ([\<lparr>Hostname = ''foo.example.com'', Target = ''public.example.net''\<rparr>], 0)"
proof -
  let ?r = "exampleRegistrator\<lparr>zone := (zone exampleRegistrator)\<lparr>ListNameservers := []\<rparr>\<rparr>"
  let ?records = "[\<lparr>Hostname = ''foo.example.com'', Target = ''public.example.net''\<rparr>,
         \<lparr>Hostname = ''claimed.example.com'', Target = ''public.example.net''\<rparr>]"
  have ns: "ListNameservers (zone ?r) = []" by simp
  have f1: "filter (\<lambda>u. canHandleRecord exampleRuntime ?r (Hostname u) \<and> Target u \<noteq> []) ?records
      = ?records" by code_simp
  have f2: "filter (\<lambda>u. canHandleRecord exampleRuntime ?r (Hostname u)
                          \<and> HostnameOwners ?r (Hostname u) = []) ?records
      = [\<lparr>Hostname = ''foo.example.com'', Target = ''public.example.net''\<rparr>]" by code_simp
  have f3: "length (filter (\<lambda>u. \<not> canHandleRecord exampleRuntime ?r (Hostname u)) ?records) = 0"
    by code_simp
  from resolveCname_no_nameservers [of exampleRuntime "[]" ?r ?records 0,
      THEN conjunct2, THEN conjunct2, THEN mp, OF ns]
  show ?thesis unfolding f1 f2 f3 using ns by simp
qed

section \<open>Action-homogeneous batches\<close>

lemma flush_batches: "flush rt r ret st = (st', po) \<Longrightarrow> batches st' = batches st @ [ret]"
  by (auto simp: flush_def Let_def split: sum.splits prod.splits)

lemma flush_calls:
  "flush rt r ret st = (st', po) \<Longrightarrow> c \<in> set (calls st') \<Longrightarrow>
   c \<in> set (calls st) \<or> (\<exists>ms' cs. applyBatch rt r ret (counters st) = Inr (ms', cs) \<and> c \<in> set cs)"
  by (auto simp: flush_def Let_def split: sum.splits prod.splits)

lemma batchOK_append:
  assumes "batchOK ret" and "\<not> actionBoundary ret t"
  shows "batchOK (ret @ [t])"
proof (cases ret)
  case Nil
  then show ?thesis by (simp add: batchOK_def)
next
  case (Cons c0 rest)
  with assms(2) have "(Action t = ChangeActionDelete) = (Action c0 = ChangeActionDelete)"
    by (auto simp: actionBoundary_def)
  with assms(1) Cons show ?thesis by (simp add: batchOK_def)
qed

lemma loop_invariant:
  assumes "processUpdateQueue_loop rt r evs ret st = (st', out)"
    and "I ret st"
    and "\<forall>t. Receive t \<in> set evs \<longrightarrow> R t"
    and append: "\<And>ret st t. I ret st \<Longrightarrow> R t \<Longrightarrow> \<not> actionBoundary ret t \<Longrightarrow> I (ret @ [t]) st"
    and flushed: "\<And>ret st st1 po. I ret st \<Longrightarrow> ret \<noteq> [] \<Longrightarrow> flush rt r ret st = (st1, po)
                   \<Longrightarrow> I [] st1"
  shows "\<exists>ret'. I ret' st'"
  using assms(1,2,3)
proof (induction evs arbitrary: ret st)
  case Nil
  then show ?case by auto
next
  case (Cons ev evs)
  from Cons.prems(3) have Revs: "\<forall>t. Receive t \<in> set evs \<longrightarrow> R t" by simp
  note IH = Cons.IH [OF _ _ Revs]
  show ?case
  proof (cases ev)
    case (Receive t)
    let ?c = "length ret > 0
         \<and> ((Action (ret ! 0) = ChangeActionDelete \<and> Action t \<noteq> ChangeActionDelete)
            \<or> (Action (ret ! 0) \<noteq> ChangeActionDelete \<and> Action t = ChangeActionDelete))"
    from Cons.prems(3) Receive have Rt: "R t" by simp
    have nb: "\<not> actionBoundary [] t" by (simp add: actionBoundary_def)
    note run0 = Cons.prems(1) [unfolded Receive processUpdateQueue_loop.simps]
    show ?thesis
    proof (cases ?c)
      case True
      obtain st1 po where f: "flush rt r ret st = (st1, po)" by (cases "flush rt r ret st")
      from True have ne: "ret \<noteq> []" by auto
      have inv1: "I [] st1" using flushed [OF Cons.prems(2) ne f] .
      note unf = run0 [unfolded if_P [OF True]]
      show ?thesis
      proof (cases po)
        case None
        with f unf have run: "processUpdateQueue_loop rt r evs ([] @ [t]) st1 = (st', out)"
          by simp
        from IH [OF run append [OF inv1 Rt nb]] show ?thesis .
      next
        case (Some p)
        with f unf have "st' = st1" by simp
        with inv1 show ?thesis by auto
      qed
    next
      case False
      then have nab: "\<not> actionBoundary ret t" by (simp add: actionBoundary_def)
      note run = run0 [unfolded if_not_P [OF False]]
      from IH [OF run append [OF Cons.prems(2) Rt nab]] show ?thesis .
    qed
  next
    case StopChannel
    note run0 = Cons.prems(1) [unfolded StopChannel processUpdateQueue_loop.simps]
    show ?thesis
    proof (cases "length ret > 0")
      case True
      obtain st1 po where f: "flush rt r ret st = (st1, po)" by (cases "flush rt r ret st")
      from True have ne: "ret \<noteq> []" by auto
      have inv1: "I [] st1" using flushed [OF Cons.prems(2) ne f] .
      note unf = run0 [unfolded if_P [OF True]]
      from f unf have "st' = st1" by (cases po) simp_all
      with inv1 show ?thesis by auto
    next
      case False
      note unf = run0 [unfolded if_not_P [OF False]]
      with Cons.prems(2) show ?thesis by auto
    qed
  next
    case Default
    note run0 = Cons.prems(1) [unfolded Default processUpdateQueue_loop.simps]
    show ?thesis
    proof (cases "length ret > 0")
      case True
      obtain st1 po where f: "flush rt r ret st = (st1, po)" by (cases "flush rt r ret st")
      from True have ne: "ret \<noteq> []" by auto
      have inv1: "I [] st1" using flushed [OF Cons.prems(2) ne f] .
      note unf = run0 [unfolded if_P [OF True]]
      show ?thesis
      proof (cases po)
        case None
        with f unf have run: "processUpdateQueue_loop rt r evs [] st1 = (st', out)"
          by simp
        from IH [OF run inv1] show ?thesis .
      next
        case (Some p)
        with f unf have "st' = st1" by simp
        with inv1 show ?thesis by auto
      qed
    next
      case False
      note run = run0 [unfolded if_not_P [OF False]]
      from IH [OF run Cons.prems(2)] show ?thesis .
    qed
  qed
qed

lemma loop_batches:
  assumes "processUpdateQueue_loop rt r evs ret st = (st', out)"
    and "batchOK ret" and "\<forall>b\<in>set (batches st). b \<noteq> [] \<and> batchOK b"
  shows "\<forall>b\<in>set (batches st'). b \<noteq> [] \<and> batchOK b"
proof -
  let ?I = "\<lambda>ret st. batchOK ret \<and> (\<forall>b\<in>set (batches st). b \<noteq> [] \<and> batchOK b)"
  have "\<exists>ret'. ?I ret' st'"
  proof (rule loop_invariant [where I = ?I and R = "\<lambda>t. True", OF assms(1)])
    show "?I ret st" using assms(2,3) by simp
    show "\<forall>t. Receive t \<in> set evs \<longrightarrow> True" by simp
  next
    fix ret st t assume "?I ret st" "\<not> actionBoundary ret t"
    then show "?I (ret @ [t]) st" using batchOK_append by simp
  next
    fix ret st st1 po
    assume I: "?I ret st" and ne: "ret \<noteq> []" and f: "flush rt r ret st = (st1, po)"
    have e: "batchOK []" by (simp add: batchOK_def)
    have "\<forall>b\<in>set (batches st @ [ret]). b \<noteq> [] \<and> batchOK b" using I ne by simp
    with e show "?I [] st1" unfolding flush_batches [OF f] by blast
  qed
  then show ?thesis by blast
qed

lemma loop_changes:
  assumes "processUpdateQueue_loop rt r evs ret st = (st', out)"
    and "\<forall>t. Receive t \<in> set evs \<longrightarrow> P t"
    and "\<forall>c\<in>set ret. P c" and "\<forall>b\<in>set (batches st). \<forall>c\<in>set b. P c"
  shows "\<forall>b\<in>set (batches st'). \<forall>c\<in>set b. P c"
proof -
  let ?I = "\<lambda>ret st. (\<forall>c\<in>set ret. P c) \<and> (\<forall>b\<in>set (batches st). \<forall>c\<in>set b. P c)"
  have "\<exists>ret'. ?I ret' st'"
  proof (rule loop_invariant [where I = ?I and R = P, OF assms(1)])
    show "?I ret st" using assms(3,4) by simp
    show "\<forall>t. Receive t \<in> set evs \<longrightarrow> P t" using assms(2) .
  next
    fix ret st t assume "?I ret st" "P t"
    then show "?I (ret @ [t]) st" by simp
  next
    fix ret st st1 po
    assume "?I ret st" "ret \<noteq> []" "flush rt r ret st = (st1, po)"
    then show "?I [] st1" using flush_batches [of rt r ret st st1 po] by simp
  qed
  then show ?thesis by blast
qed

lemma callFrom_mono: "callFrom rt r bs c \<Longrightarrow> callFrom rt r (bs @ bs') c"
  by (auto simp: callFrom_def)

lemma loop_calls:
  assumes "processUpdateQueue_loop rt r evs ret st = (st', out)"
    and "\<forall>c\<in>set (calls st). callFrom rt r (batches st) c"
  shows "\<forall>c\<in>set (calls st'). callFrom rt r (batches st') c"
proof -
  let ?I = "\<lambda>ret st. \<forall>c\<in>set (calls st). callFrom rt r (batches st) c"
  have "\<exists>ret'. ?I (ret' :: cnameChange list) st'"
  proof (rule loop_invariant [where I = ?I and R = "\<lambda>t. True", OF assms(1)])
    show "?I ret st" using assms(2) .
    show "\<forall>t. Receive t \<in> set evs \<longrightarrow> True" by simp
  next
    fix ret :: "cnameChange list" and st t assume "?I ret st"
    then show "?I (ret @ [t]) st" .
  next
    fix ret st st1 po
    assume I: "?I ret st" and f: "flush rt r ret st = (st1, po)"
    show "?I [] st1"
    proof
      fix c assume "c \<in> set (calls st1)"
      from flush_calls [OF f this] show "callFrom rt r (batches st1) c"
      proof
        assume "c \<in> set (calls st)"
        with I have "callFrom rt r (batches st) c" by simp
        then show ?thesis unfolding flush_batches [OF f] by (rule callFrom_mono)
      next
        assume "\<exists>ms' cs. applyBatch rt r ret (counters st) = Inr (ms', cs) \<and> c \<in> set cs"
        then show ?thesis unfolding flush_batches [OF f] callFrom_def by auto
      qed
    qed
  qed
  then show ?thesis by blast
qed


lemma pruneBatch_subset:
  assumes "pruneBatch rt r action records m = Inr (pruned, m')"
  shows "set pruned \<subseteq> set records"
proof
  fix u assume "u \<in> set pruned"
  from pruneBatch_member [OF assms, THEN iffD1, OF this] show "u \<in> set records" by (elim conjE)
qed

text \<open>
  Claim C4. Start the loop of \<open>processUpdateQueue\<close> with an empty buffer and run it on any
  sequence of \<open>select\<close> branches. Every batch handed to \<open>applyBatch\<close> is non-empty
  and action-homogeneous: each of its changes is a DELETE iff its first change is, so no
  batch mixes UPSERT and DELETE. Every record list passed to \<open>DeleteCnames\<close> comes from
  a batch of DELETE changes only, and every record list passed to \<open>UpsertCnames\<close> from a
  batch without any DELETE change. When every change received is an UPSERT or a DELETE (the
  only actions the handler enqueues), all changes of a batch have the action of its first.
\<close>

theorem processUpdateQueue_batches_homogeneous:
  assumes "processUpdateQueue rt r evs st0 = (st, out)"
    and "batches st0 = []" and "calls st0 = []"
  shows "(\<forall>b\<in>set (batches st). b \<noteq> []
            \<and> (\<forall>c\<in>set b. (Action c = ChangeActionDelete) = (Action (hd b) = ChangeActionDelete))
            \<and> \<not> (\<exists>c\<in>set b. \<exists>d\<in>set b.
                    Action c = ChangeActionUpsert \<and> Action d = ChangeActionDelete))
       \<and> (\<forall>call\<in>set (calls st). \<exists>b\<in>set (batches st).
             set (mutatorRecords call) \<subseteq> Record ` set b
             \<and> (case call of
                  CallDeleteCnames recs \<Rightarrow> (\<forall>c\<in>set b. Action c = ChangeActionDelete)
                | CallUpsertCnames recs \<Rightarrow> (\<forall>c\<in>set b. Action c \<noteq> ChangeActionDelete)))
       \<and> ((\<forall>t. Receive t \<in> set evs \<longrightarrow>
              Action t = ChangeActionUpsert \<or> Action t = ChangeActionDelete)
            \<longrightarrow> (\<forall>b\<in>set (batches st). \<forall>c\<in>set b. Action c = Action (hd b)))"
proof -
  from assms(1) have run: "processUpdateQueue_loop rt r evs [] st0 = (st, out)"
    by (simp add: processUpdateQueue_def)
  have du: "ChangeActionDelete \<noteq> ChangeActionUpsert"
    by (simp add: ChangeActionDelete_def ChangeActionUpsert_def)
  have e: "batchOK []" by (simp add: batchOK_def)
  have i0: "\<forall>b\<in>set (batches st0). b \<noteq> [] \<and> batchOK b" unfolding assms(2) by simp
  have ok: "\<forall>b\<in>set (batches st). b \<noteq> [] \<and> batchOK b"
    using loop_batches [OF run e i0] .
  have hdmem: "hd b \<in> set b" if "b \<in> set (batches st)" for b
  proof -
    from ok that have "b \<noteq> []" by blast
    then show ?thesis by (rule hd_in_set)
  qed
  have part1: "\<forall>b\<in>set (batches st). b \<noteq> []
            \<and> (\<forall>c\<in>set b. (Action c = ChangeActionDelete) = (Action (hd b) = ChangeActionDelete))
            \<and> \<not> (\<exists>c\<in>set b. \<exists>d\<in>set b.
                    Action c = ChangeActionUpsert \<and> Action d = ChangeActionDelete)"
  proof
    fix b assume b: "b \<in> set (batches st)"
    with ok have ne: "b \<noteq> []" and bok: "batchOK b" by blast+
    from bok have
      same: "\<forall>c\<in>set b. (Action c = ChangeActionDelete) = (Action (hd b) = ChangeActionDelete)"
      unfolding batchOK_def .
    have "\<not> (\<exists>c\<in>set b. \<exists>d\<in>set b. Action c = ChangeActionUpsert \<and> Action d = ChangeActionDelete)"
    proof
      assume "\<exists>c\<in>set b. \<exists>d\<in>set b. Action c = ChangeActionUpsert \<and> Action d = ChangeActionDelete"
      then obtain c d where cd: "c \<in> set b" "d \<in> set b" "Action c = ChangeActionUpsert"
        "Action d = ChangeActionDelete" by blast
      from same cd(2,4) have "Action (hd b) = ChangeActionDelete" by blast
      with same cd(1) have "Action c = ChangeActionDelete" by blast
      with cd(3) du show False by simp
    qed
    with ne same show "b \<noteq> []
            \<and> (\<forall>c\<in>set b. (Action c = ChangeActionDelete) = (Action (hd b) = ChangeActionDelete))
            \<and> \<not> (\<exists>c\<in>set b. \<exists>d\<in>set b.
                    Action c = ChangeActionUpsert \<and> Action d = ChangeActionDelete)"
      by (intro conjI)
  qed
  have c0: "\<forall>c\<in>set (calls st0). callFrom rt r (batches st0) c" unfolding assms(3) by simp
  have cf: "\<forall>c\<in>set (calls st). callFrom rt r (batches st) c"
    using loop_calls [OF run c0] .
  have part2: "\<forall>call\<in>set (calls st). \<exists>b\<in>set (batches st).
             set (mutatorRecords call) \<subseteq> Record ` set b
             \<and> (case call of
                  CallDeleteCnames recs \<Rightarrow> (\<forall>c\<in>set b. Action c = ChangeActionDelete)
                | CallUpsertCnames recs \<Rightarrow> (\<forall>c\<in>set b. Action c \<noteq> ChangeActionDelete))"
  proof
    fix call assume "call \<in> set (calls st)"
    with cf obtain b ms ms' cs where b: "b \<in> set (batches st)"
      and ab: "applyBatch rt r b ms = Inr (ms', cs)" and c: "call \<in> set cs"
      unfolding callFrom_def by blast
    from applyBatch_calls [OF ab c] obtain pruned m' where
      p: "pruneBatch rt r (Action (hd b)) (map Record b) (metricUpdatesRejected ms) = Inr (pruned, m')"
      and cc: "call = (if Action (hd b) = ChangeActionDelete then CallDeleteCnames pruned
                       else CallUpsertCnames pruned)" by blast
    from pruneBatch_subset [OF p] have sub: "set pruned \<subseteq> Record ` set b" by simp
    from part1 b have same:
      "\<forall>c\<in>set b. (Action c = ChangeActionDelete) = (Action (hd b) = ChangeActionDelete)" by blast
    have "set (mutatorRecords call) \<subseteq> Record ` set b
             \<and> (case call of
                  CallDeleteCnames recs \<Rightarrow> (\<forall>c\<in>set b. Action c = ChangeActionDelete)
                | CallUpsertCnames recs \<Rightarrow> (\<forall>c\<in>set b. Action c \<noteq> ChangeActionDelete))"
    proof (cases "Action (hd b) = ChangeActionDelete")
      case True
      with cc have "call = CallDeleteCnames pruned" by simp
      with sub same True show ?thesis by simp
    next
      case False
      with cc have "call = CallUpsertCnames pruned" by simp
      with sub same False show ?thesis by simp
    qed
    with b show "\<exists>b\<in>set (batches st).
             set (mutatorRecords call) \<subseteq> Record ` set b
             \<and> (case call of
                  CallDeleteCnames recs \<Rightarrow> (\<forall>c\<in>set b. Action c = ChangeActionDelete)
                | CallUpsertCnames recs \<Rightarrow> (\<forall>c\<in>set b. Action c \<noteq> ChangeActionDelete))"
      by blast
  qed
  have part3: "\<forall>b\<in>set (batches st). \<forall>c\<in>set b. Action c = Action (hd b)"
    if R: "\<forall>t. Receive t \<in> set evs \<longrightarrow>
              Action t = ChangeActionUpsert \<or> Action t = ChangeActionDelete"
  proof (intro ballI)
    fix b c assume b: "b \<in> set (batches st)" and c: "c \<in> set b"
    have r0: "\<forall>c\<in>set ([] :: cnameChange list).
        Action c = ChangeActionUpsert \<or> Action c = ChangeActionDelete" by simp
    have b0: "\<forall>b\<in>set (batches st0). \<forall>c\<in>set b.
        Action c = ChangeActionUpsert \<or> Action c = ChangeActionDelete" unfolding assms(2) by simp
    have two: "\<forall>b\<in>set (batches st). \<forall>c\<in>set b.
        Action c = ChangeActionUpsert \<or> Action c = ChangeActionDelete"
      using loop_changes [where P = "\<lambda>c. Action c = ChangeActionUpsert \<or> Action c = ChangeActionDelete",
          OF run R r0 b0] .
    from part1 b c have s: "(Action c = ChangeActionDelete) = (Action (hd b) = ChangeActionDelete)"
      by blast
    from two b c have tc: "Action c = ChangeActionUpsert \<or> Action c = ChangeActionDelete" by blast
    from two b hdmem [OF b]
    have th: "Action (hd b) = ChangeActionUpsert \<or> Action (hd b) = ChangeActionDelete" by blast
    from s tc th show "Action c = Action (hd b)" by auto
  qed
  from part1 part2 part3 show ?thesis by blast
qed


theorem processUpdateQueue_batches_homogeneous_witness:
  "processUpdateQueue exampleRuntime exampleRegistrator exampleEvents exampleStart =
     (\<lparr>counters = \<lparr>metricUpdatesReceived = [],
                    metricUpdatesApplied = [(''bar.example.com'', ''upsert''),
                                            (''baz.example.com'', ''upsert''),
                                            (''foo.example.com'', ''delete'')],
                    metricUpdatesRejected = 0\<rparr>,
       calls = [CallUpsertCnames
                  [\<lparr>Hostname = ''bar.example.com'', Target = ''public.example.net''\<rparr>,
                   \<lparr>Hostname = ''baz.example.com'', Target = ''public.example.net''\<rparr>],
                CallDeleteCnames
                  [\<lparr>Hostname = ''foo.example.com'', Target = ''public.example.net''\<rparr>]],
       batches = [[\<lparr>Action = ChangeActionUpsert,
                    Record = \<lparr>Hostname = ''bar.example.com'', Target = ''public.example.net''\<rparr>\<rparr>,
                   \<lparr>Action = ChangeActionUpsert,
                    Record = \<lparr>Hostname = ''baz.example.com'', Target = ''public.example.net''\<rparr>\<rparr>],
                  [\<lparr>Action = ChangeActionDelete,
                    Record = \<lparr>Hostname = ''foo.example.com'', Target = ''public.example.net''\<rparr>\<rparr>]]\<rparr>,
      Returned)
   \<and> \<not> (\<exists>c\<in>set [\<lparr>Action = ChangeActionUpsert,
                    Record = \<lparr>Hostname = ''bar.example.com'', Target = ''public.example.net''\<rparr>\<rparr>,
                   \<lparr>Action = ChangeActionUpsert,
                    Record = \<lparr>Hostname = ''baz.example.com'', Target = ''public.example.net''\<rparr>\<rparr>].
        \<exists>d\<in>set [\<lparr>Action = ChangeActionUpsert,
                    Record = \<lparr>Hostname = ''bar.example.com'', Target = ''public.example.net''\<rparr>\<rparr>,
                   \<lparr>Action = ChangeActionUpsert,
                    Record = \<lparr>Hostname = ''baz.example.com'', Target = ''public.example.net''\<rparr>\<rparr>].
          Action c = ChangeActionUpsert \<and> Action d = ChangeActionDelete)"
proof -
  let ?b = "[\<lparr>Action = ChangeActionUpsert,
                    Record = \<lparr>Hostname = ''bar.example.com'', Target = ''public.example.net''\<rparr>\<rparr>,
                   \<lparr>Action = ChangeActionUpsert,
                    Record = \<lparr>Hostname = ''baz.example.com'', Target = ''public.example.net''\<rparr>\<rparr>]"
  let ?st = "\<lparr>counters = \<lparr>metricUpdatesReceived = [],
                    metricUpdatesApplied = [(''bar.example.com'', ''upsert''),
                                            (''baz.example.com'', ''upsert''),
                                            (''foo.example.com'', ''delete'')],
                    metricUpdatesRejected = 0\<rparr>,
       calls = [CallUpsertCnames
                  [\<lparr>Hostname = ''bar.example.com'', Target = ''public.example.net''\<rparr>,
                   \<lparr>Hostname = ''baz.example.com'', Target = ''public.example.net''\<rparr>],
                CallDeleteCnames
                  [\<lparr>Hostname = ''foo.example.com'', Target = ''public.example.net''\<rparr>]],
       batches = [?b,
                  [\<lparr>Action = ChangeActionDelete,
                    Record = \<lparr>Hostname = ''foo.example.com'', Target = ''public.example.net''\<rparr>\<rparr>]]\<rparr>"
  have run: "processUpdateQueue exampleRuntime exampleRegistrator exampleEvents exampleStart
      = (?st, Returned)"
    by code_simp
  have b0: "batches exampleStart = []" and c0: "calls exampleStart = []"
    by (simp_all add: exampleStart_def)
  have mem: "?b \<in> set (batches ?st)" by simp
  note hom = processUpdateQueue_batches_homogeneous [OF run b0 c0, THEN conjunct1, THEN bspec, OF mem]
  from hom have "\<not> (\<exists>c\<in>set ?b. \<exists>d\<in>set ?b.
      Action c = ChangeActionUpsert \<and> Action d = ChangeActionDelete)"
    by (elim conjE)
  with run show ?thesis by (intro conjI)
qed

section \<open>The no-op guard of the handler\<close>

lemma existsIn_iff: "existsIn va b \<longleftrightarrow> va \<in> set b"
  by (induction b) auto

lemma diffStringSlices_loop_eq:
  "diffStringSlices_loop a b ret = ret @ filter (\<lambda>va. va \<notin> set b) a"
  by (induction a arbitrary: ret) (auto simp: existsIn_iff)

lemma diffStringSlices_eq: "diffStringSlices a b = filter (\<lambda>va. va \<notin> set b) a"
  by (simp add: diffStringSlices_def diffStringSlices_loop_eq)

lemma diffStringSlices_empty_iff: "diffStringSlices a b = [] \<longleftrightarrow> set a - set b = {}"
  by (auto simp: diffStringSlices_eq filter_empty_conv)

lemma queueUpdates_eq:
  "queueUpdates action hostnames target q =
     q @ map (\<lambda>h. \<lparr>Action = action, Record = \<lparr>Hostname = h, Target = target\<rparr>\<rparr>) hostnames"
  by (induction hostnames arbitrary: q) auto

text \<open>
  Claim C6. For every MODIFIED event in which no hostname of the old ingress is missing
  from the new one and both ingresses have the same value for the target label key, the
  handler leaves the update queue as it is (it only counts the event); in particular a
  resync event, whose old and new ingress are the same, enqueues nothing.
\<close>

theorem handler_modified_noop:
  assumes "set (getHostnamesFromIngress old) - set (getHostnamesFromIngress new) = {}"
    and "labelValue old (TargetLabelName (options r)) = labelValue new (TargetLabelName (options r))"
  shows "handler r Modified (Some old) (Some new) (updateQueue, ms) =
           Inr (updateQueue,
                ms\<lparr>metricUpdatesReceived := metricUpdatesReceived ms @ [(Name new, ''modify'')]\<rparr>)
       \<and> handler r Modified (Some new) (Some new) (updateQueue, ms) =
           Inr (updateQueue,
                ms\<lparr>metricUpdatesReceived := metricUpdatesReceived ms @ [(Name new, ''modify'')]\<rparr>)"
proof
  have d: "diffStringSlices (getHostnamesFromIngress old) (getHostnamesFromIngress new) = []"
    using assms(1) by (simp add: diffStringSlices_empty_iff)
  show "handler r Modified (Some old) (Some new) (updateQueue, ms) =
           Inr (updateQueue,
                ms\<lparr>metricUpdatesReceived := metricUpdatesReceived ms @ [(Name new, ''modify'')]\<rparr>)"
    by (simp add: handler_def Let_def d assms(2))
  have d': "diffStringSlices (getHostnamesFromIngress new) (getHostnamesFromIngress new) = []"
    by (simp add: diffStringSlices_empty_iff)
  show "handler r Modified (Some new) (Some new) (updateQueue, ms) =
           Inr (updateQueue,
                ms\<lparr>metricUpdatesReceived := metricUpdatesReceived ms @ [(Name new, ''modify'')]\<rparr>)"
    by (simp add: handler_def Let_def d')
qed


theorem handler_modified_noop_witness:
  "set (getHostnamesFromIngress exampleIngressOld) - set (getHostnamesFromIngress exampleIngressNew) = {}
   \<and> labelValue exampleIngressOld (TargetLabelName (options exampleRegistrator))
       = labelValue exampleIngressNew (TargetLabelName (options exampleRegistrator))
   \<and> handler exampleRegistrator Modified (Some exampleIngressOld) (Some exampleIngressNew)
        ([], exampleCounters)
      = Inr ([], exampleCounters\<lparr>metricUpdatesReceived :=
                  metricUpdatesReceived exampleCounters @ [(Name exampleIngressNew, ''modify'')]\<rparr>)"
proof -
  have h: "set (getHostnamesFromIngress exampleIngressOld)
      - set (getHostnamesFromIngress exampleIngressNew) = {}"
    by code_simp
  have l: "labelValue exampleIngressOld (TargetLabelName (options exampleRegistrator))
       = labelValue exampleIngressNew (TargetLabelName (options exampleRegistrator))"
    by code_simp
  from handler_modified_noop [OF h l, of "[]" exampleCounters, THEN conjunct1] h l
  show ?thesis by (intro conjI)
qed

section \<open>Target selection\<close>

lemma plainName_no_eq:
  assumes "plainName n"
  shows "CHR ''='' \<notin> set n"
proof
  assume "CHR ''='' \<in> set n"
  moreover from assms have "\<forall>c\<in>set n. alnumChar c \<or> c \<in> set ''-_.''"
    unfolding plainName_def list_all_iff by (elim conjE)
  ultimately have "alnumChar (CHR ''='') \<or> CHR ''='' \<in> set ''-_.''" by blast
  moreover have "\<not> (alnumChar (CHR ''='') \<or> CHR ''='' \<in> set ''-_.'')" by code_simp
  ultimately show False by blast
qed

lemma labels_Parse_plain:
  assumes "plainName key" and "plainName val"
  shows "labels_Parse ext (key @ ''='' @ val) = Inr (\<lambda>ls. ls key = Some val)"
proof -
  from plainName_no_eq [OF assms(1)] have ne: "\<forall>c\<in>set key. c \<noteq> CHR ''=''" by auto
  have t: "takeWhile (\<lambda>c. c \<noteq> CHR ''='') (key @ ''='' @ val) = key"
    using ne by (simp add: takeWhile_append2)
  have d: "dropWhile (\<lambda>c. c \<noteq> CHR ''='') (key @ ''='' @ val) = ''='' @ val"
    using ne by (simp add: dropWhile_append2)
  show ?thesis
    unfolding labels_Parse_def Let_def t d using assms by simp
qed

lemma newRegistrator_sats_plain:
  assumes "plainName key"
  shows "\<forall>t\<in>set targets. plainName t \<Longrightarrow>
     newRegistrator_sats rt key targets acc =
       Inr (acc @ map (\<lambda>t. \<lparr>Selector = (\<lambda>ls. ls key = Some t), satTarget = t\<rparr>) targets)"
proof (induction targets arbitrary: acc)
  case Nil
  then show ?case by simp
next
  case (Cons t targets)
  then have pt: "plainName t" and rest: "\<forall>t\<in>set targets. plainName t" by simp_all
  show ?case
    unfolding newRegistrator_sats.simps labels_Parse_plain [OF assms pt]
    by (simp add: Cons.IH [OF rest])
qed

lemma getTargetForIngress_loop_find:
  "getTargetForIngress_loop sats' ing =
     (case find (\<lambda>sat. Selector sat (Labels ing)) sats' of
        Some sat \<Rightarrow> satTarget sat | None \<Rightarrow> [])"
  by (induction sats') auto

lemma getTargetForIngress_loop_plain:
  "getTargetForIngress_loop
     (map (\<lambda>t. \<lparr>Selector = (\<lambda>ls. ls key = Some t), satTarget = t\<rparr>) targets) ing =
   (case find (\<lambda>t. Labels ing key = Some t) targets of Some t \<Rightarrow> t | None \<Rightarrow> [])"
  by (induction targets) auto


lemma handler_modified_shape:
  "handler r Modified (Some old) (Some new) (q, ms) =
     Inr (q @ (if (diffStringSlices (getHostnamesFromIngress old) (getHostnamesFromIngress new) = []
                   \<and> labelValue new (TargetLabelName (options r))
                       = labelValue old (TargetLabelName (options r)))
                  \<or> getTargetForIngress r new = []
               then []
               else map (\<lambda>h. \<lparr>Action = ChangeActionUpsert,
                               Record = \<lparr>Hostname = h, Target = getTargetForIngress r new\<rparr>\<rparr>)
                      (getHostnamesFromIngress new))
            @ (if (diffStringSlices (getHostnamesFromIngress old) (getHostnamesFromIngress new) = []
                   \<and> labelValue new (TargetLabelName (options r))
                       = labelValue old (TargetLabelName (options r)))
                  \<or> getTargetForIngress r old = []
               then []
               else map (\<lambda>h. \<lparr>Action = ChangeActionDelete,
                               Record = \<lparr>Hostname = h, Target = getTargetForIngress r old\<rparr>\<rparr>)
                      (diffStringSlices (getHostnamesFromIngress old) (getHostnamesFromIngress new))),
          ms\<lparr>metricUpdatesReceived := metricUpdatesReceived ms @ [(Name new, ''modify'')]\<rparr>)"
  by (simp add: handler_def Let_def queueUpdates_eq)

text \<open>
  Claim C7. \<open>getTargetForIngress\<close> returns the target of the first pair of the selector
  list, in its order, whose selector matches the labels of the ingress, and the empty string
  when no selector matches. For an ingress without a target the handler enqueues nothing
  on an ADDED or DELETED event, no UPSERT when it is the new ingress of a MODIFIED event,
  and no DELETE when it is the old one. When the selector list is the one that
  \<open>newRegistratorWithOptions\<close> builds from a label name and targets that are plain
  names, the selector of a target matches iff the ingress carries that target as the value
  of the target label: the result is the first configured target equal to that label
  value, and it is empty iff no configured target is.
\<close>

theorem getTargetForIngress_first_match:
  "getTargetForIngress r ing =
     (case find (\<lambda>sat. Selector sat (Labels ing)) (sats r) of
        Some sat \<Rightarrow> satTarget sat | None \<Rightarrow> [])
   \<and> (getTargetForIngress r ing = [] \<longrightarrow>
        handler r Added old (Some ing) (q, ms) =
          Inr (q, ms\<lparr>metricUpdatesReceived := metricUpdatesReceived ms @ [(Name ing, ''add'')]\<rparr>)
        \<and> handler r Deleted (Some ing) new (q, ms) =
          Inr (q, ms\<lparr>metricUpdatesReceived := metricUpdatesReceived ms @ [(Name ing, ''delete'')]\<rparr>)
        \<and> (\<forall>other q' ms'.
              handler r Modified (Some other) (Some ing) (q, ms) = Inr (q', ms') \<longrightarrow>
              (\<exists>added. q' = q @ added \<and> (\<forall>c\<in>set added. Action c \<noteq> ChangeActionUpsert)))
        \<and> (\<forall>other q' ms'.
              handler r Modified (Some ing) (Some other) (q, ms) = Inr (q', ms') \<longrightarrow>
              (\<exists>added. q' = q @ added \<and> (\<forall>c\<in>set added. Action c \<noteq> ChangeActionDelete))))
   \<and> (\<forall>rt opts opts'.
        newRegistratorWithOptions rt opts = Inr (opts', sats r)
        \<and> plainName (TargetLabelName opts) \<and> (\<forall>t\<in>set (Targets opts). plainName t) \<longrightarrow>
        getTargetForIngress r ing =
          (case find (\<lambda>t. Labels ing (TargetLabelName opts) = Some t) (Targets opts) of
             Some t \<Rightarrow> t | None \<Rightarrow> [])
        \<and> (getTargetForIngress r ing = [] \<longleftrightarrow>
             \<not> (\<exists>t\<in>set (Targets opts). Labels ing (TargetLabelName opts) = Some t)))"
proof (intro conjI)
  show "getTargetForIngress r ing =
     (case find (\<lambda>sat. Selector sat (Labels ing)) (sats r) of
        Some sat \<Rightarrow> satTarget sat | None \<Rightarrow> [])"
    unfolding getTargetForIngress_def by (rule getTargetForIngress_loop_find)
next
  have du: "ChangeActionDelete \<noteq> ChangeActionUpsert"
    by (simp add: ChangeActionDelete_def ChangeActionUpsert_def)
  show "getTargetForIngress r ing = [] \<longrightarrow>
        handler r Added old (Some ing) (q, ms) =
          Inr (q, ms\<lparr>metricUpdatesReceived := metricUpdatesReceived ms @ [(Name ing, ''add'')]\<rparr>)
        \<and> handler r Deleted (Some ing) new (q, ms) =
          Inr (q, ms\<lparr>metricUpdatesReceived := metricUpdatesReceived ms @ [(Name ing, ''delete'')]\<rparr>)
        \<and> (\<forall>other q' ms'.
              handler r Modified (Some other) (Some ing) (q, ms) = Inr (q', ms') \<longrightarrow>
              (\<exists>added. q' = q @ added \<and> (\<forall>c\<in>set added. Action c \<noteq> ChangeActionUpsert)))
        \<and> (\<forall>other q' ms'.
              handler r Modified (Some ing) (Some other) (q, ms) = Inr (q', ms') \<longrightarrow>
              (\<exists>added. q' = q @ added \<and> (\<forall>c\<in>set added. Action c \<noteq> ChangeActionDelete)))"
  proof (intro conjI allI impI)
    assume e: "getTargetForIngress r ing = []"
    show "handler r Added old (Some ing) (q, ms) =
              Inr (q, ms\<lparr>metricUpdatesReceived := metricUpdatesReceived ms @ [(Name ing, ''add'')]\<rparr>)"
      by (simp add: handler_def Let_def e)
    show "handler r Deleted (Some ing) new (q, ms) =
              Inr (q, ms\<lparr>metricUpdatesReceived := metricUpdatesReceived ms @ [(Name ing, ''delete'')]\<rparr>)"
      by (simp add: handler_def Let_def e)
  next
    fix other q' ms'
    assume e: "getTargetForIngress r ing = []"
      and "handler r Modified (Some other) (Some ing) (q, ms) = Inr (q', ms')"
    then have "q' = q @ (if (diffStringSlices (getHostnamesFromIngress other) (getHostnamesFromIngress ing) = []
                   \<and> labelValue ing (TargetLabelName (options r))
                       = labelValue other (TargetLabelName (options r)))
                  \<or> getTargetForIngress r other = []
               then []
               else map (\<lambda>h. \<lparr>Action = ChangeActionDelete,
                               Record = \<lparr>Hostname = h, Target = getTargetForIngress r other\<rparr>\<rparr>)
                      (diffStringSlices (getHostnamesFromIngress other) (getHostnamesFromIngress ing)))"
      (is "q' = q @ ?B")
      unfolding handler_modified_shape by simp
    moreover have "\<forall>c\<in>set ?B. Action c \<noteq> ChangeActionUpsert" using du by auto
    ultimately show "\<exists>added. q' = q @ added \<and> (\<forall>c\<in>set added. Action c \<noteq> ChangeActionUpsert)"
      by blast
  next
    fix other q' ms'
    assume e: "getTargetForIngress r ing = []"
      and "handler r Modified (Some ing) (Some other) (q, ms) = Inr (q', ms')"
    then have "q' = q @ (if (diffStringSlices (getHostnamesFromIngress ing) (getHostnamesFromIngress other) = []
                   \<and> labelValue other (TargetLabelName (options r))
                       = labelValue ing (TargetLabelName (options r)))
                  \<or> getTargetForIngress r other = []
               then []
               else map (\<lambda>h. \<lparr>Action = ChangeActionUpsert,
                               Record = \<lparr>Hostname = h, Target = getTargetForIngress r other\<rparr>\<rparr>)
                      (getHostnamesFromIngress other))"
      (is "q' = q @ ?A")
      unfolding handler_modified_shape by simp
    moreover have "\<forall>c\<in>set ?A. Action c \<noteq> ChangeActionDelete" using du by auto
    ultimately show "\<exists>added. q' = q @ added \<and> (\<forall>c\<in>set added. Action c \<noteq> ChangeActionDelete)"
      by blast
  qed
next
  show "\<forall>rt opts opts'.
        newRegistratorWithOptions rt opts = Inr (opts', sats r)
        \<and> plainName (TargetLabelName opts) \<and> (\<forall>t\<in>set (Targets opts). plainName t) \<longrightarrow>
        getTargetForIngress r ing =
          (case find (\<lambda>t. Labels ing (TargetLabelName opts) = Some t) (Targets opts) of
             Some t \<Rightarrow> t | None \<Rightarrow> [])
        \<and> (getTargetForIngress r ing = [] \<longleftrightarrow>
             \<not> (\<exists>t\<in>set (Targets opts). Labels ing (TargetLabelName opts) = Some t))"
  proof (intro allI impI)
    fix rt opts opts'
    assume a: "newRegistratorWithOptions rt opts = Inr (opts', sats r)
        \<and> plainName (TargetLabelName opts) \<and> (\<forall>t\<in>set (Targets opts). plainName t)"
    then have new: "newRegistratorWithOptions rt opts = Inr (opts', sats r)"
      and pk: "plainName (TargetLabelName opts)" and pt: "\<forall>t\<in>set (Targets opts). plainName t"
      by blast+
    let ?key = "TargetLabelName opts"
    from new obtain built where
      b: "newRegistrator_sats rt ?key (Targets opts) [] = Inr built"
      by (cases "newRegistrator_sats rt ?key (Targets opts) []")
         (auto simp: newRegistratorWithOptions_def split: if_splits)
    from new b have "sats r = built"
      by (auto simp: newRegistratorWithOptions_def Let_def split: if_splits sum.splits)
    with b newRegistrator_sats_plain [OF pk pt, of rt "[]"]
    have s: "sats r = map (\<lambda>t. \<lparr>Selector = (\<lambda>ls. ls ?key = Some t), satTarget = t\<rparr>) (Targets opts)"
      by simp
    have first: "getTargetForIngress r ing =
           (case find (\<lambda>t. Labels ing ?key = Some t) (Targets opts) of
              Some t \<Rightarrow> t | None \<Rightarrow> [])"
      unfolding getTargetForIngress_def s by (rule getTargetForIngress_loop_plain)
    have none: "getTargetForIngress r ing = [] \<longleftrightarrow>
            \<not> (\<exists>t\<in>set (Targets opts). Labels ing ?key = Some t)"
    proof (cases "find (\<lambda>t. Labels ing ?key = Some t) (Targets opts)")
      case None
      then have "\<not> (\<exists>t\<in>set (Targets opts). Labels ing ?key = Some t)"
        by (simp add: find_None_iff)
      moreover from None have "getTargetForIngress r ing = []" unfolding first by simp
      ultimately show ?thesis by blast
    next
      case (Some t)
      then have t: "t \<in> set (Targets opts)" "Labels ing ?key = Some t"
        by (auto simp: find_Some_iff)
      with pt have "plainName t" by blast
      then have "t \<noteq> []" by (simp add: plainName_def)
      moreover from Some have "getTargetForIngress r ing = t" unfolding first by simp
      ultimately show ?thesis using t by blast
    qed
    from first none show "getTargetForIngress r ing =
          (case find (\<lambda>t. Labels ing (TargetLabelName opts) = Some t) (Targets opts) of
             Some t \<Rightarrow> t | None \<Rightarrow> [])
        \<and> (getTargetForIngress r ing = [] \<longleftrightarrow>
             \<not> (\<exists>t\<in>set (Targets opts). Labels ing (TargetLabelName opts) = Some t))"
      by (intro conjI)
  qed
qed

theorem getTargetForIngress_first_match_witness:
  "newRegistratorWithOptions exampleRuntime exampleOptions =
     Inr (exampleOptions\<lparr>AWSSessionOptions := Some [], ResyncPeriod := defaultResyncPeriod\<rparr>,
          sats exampleRegistrator)
   \<and> plainName (TargetLabelName exampleOptions)
   \<and> getTargetForIngress exampleRegistrator exampleIngressOld = ''private.example.net''
   \<and> getTargetForIngress exampleRegistrator exampleIngressUnlabelled = []
   \<and> handler exampleRegistrator Added None (Some exampleIngressUnlabelled) ([], exampleCounters) =
       Inr ([], exampleCounters\<lparr>metricUpdatesReceived :=
              metricUpdatesReceived exampleCounters @ [(Name exampleIngressUnlabelled, ''add'')]\<rparr>)"
proof -
  have pk: "plainName (TargetLabelName exampleOptions)" by code_simp
  have pt: "\<forall>t\<in>set (Targets exampleOptions). plainName t" by code_simp
  have built: "newRegistrator_sats exampleRuntime (TargetLabelName exampleOptions)
      (Targets exampleOptions) [] = Inr (sats exampleRegistrator)"
    unfolding newRegistrator_sats_plain [OF pk pt]
    by (simp add: exampleOptions_def exampleRegistrator_def)
  have new: "newRegistratorWithOptions exampleRuntime exampleOptions =
     Inr (exampleOptions\<lparr>AWSSessionOptions := Some [], ResyncPeriod := defaultResyncPeriod\<rparr>,
          sats exampleRegistrator)"
    unfolding newRegistratorWithOptions_def built
    by (simp add: exampleOptions_def)
  note sel = getTargetForIngress_first_match [THEN conjunct2, THEN conjunct2, rule_format,
      OF conjI [OF new conjI [OF pk pt]], THEN conjunct1]
  have t1: "getTargetForIngress exampleRegistrator exampleIngressOld = ''private.example.net''"
    unfolding sel by (simp add: exampleOptions_def exampleIngressOld_def)
  have t2: "getTargetForIngress exampleRegistrator exampleIngressUnlabelled = []"
    unfolding sel by (simp add: exampleOptions_def exampleIngressUnlabelled_def)
  from getTargetForIngress_first_match [of exampleRegistrator exampleIngressUnlabelled None
      "[]" exampleCounters, THEN conjunct2, THEN conjunct1, THEN mp, OF t2, THEN conjunct1]
  have t3: "handler exampleRegistrator Added None (Some exampleIngressUnlabelled) ([], exampleCounters) =
       Inr ([], exampleCounters\<lparr>metricUpdatesReceived :=
              metricUpdatesReceived exampleCounters @ [(Name exampleIngressUnlabelled, ''add'')]\<rparr>)" .
  from new pk t1 t2 t3 show ?thesis by (intro conjI)
qed


end
